theory Spec2Isabelle
  imports Main "HOL-Library.Word"
begin

unbundle bit_operations_syntax

section \<open>Machine integers, memory and errors\<close>

text \<open>
  The fixed-width integers of the C++ source are words of the same width; a signed
  integer is a word read through \<open>sint\<close>.  A pointer is modelled as a pair of the memory
  region it points into (a list of bytes) and an offset into that region.
\<close>

type_synonym byte = "8 word"
type_synonym uint8_t = "8 word"
type_synonym uint32_t = "32 word"
type_synonym int32_t = "32 word"
type_synonym uint64_t = "64 word"
type_synonym int64_t = "64 word"

text \<open>
  \<open>Runtime_error msg\<close> is \<open>throw runtime_error(msg)\<close>.  \<open>Undefined_behaviour\<close> marks what
  C++ leaves undefined and the source never checks: an access outside the memory region
  a pointer belongs to, the use of memory that was never written, or \<open>int\<close> arithmetic
  whose result C++ does not define.
\<close>

datatype error = Runtime_error string | Undefined_behaviour

text \<open>Sequencing: the second step runs only if the first one neither threw nor faulted.\<close>

definition and_then :: "error + 'a \<Rightarrow> ('a \<Rightarrow> error + 'b) \<Rightarrow> error + 'b" where
  "and_then r f = (case r of Inl e \<Rightarrow> Inl e | Inr x \<Rightarrow> f x)"

definition load8 :: "byte list \<Rightarrow> nat \<Rightarrow> error + byte" where
  "load8 m i = (if i < length m then Inr (m ! i) else Inl Undefined_behaviour)"

text \<open>
  Arithmetic on the 32-bit \<open>int\<close>.  The left shift \<open>a << n\<close> is defined only for a count
  below 32 and a non-negative \<open>a\<close> for which \<open>a * 2^n\<close> fits the 32 bits of \<open>unsigned int\<close>;
  its value is then that number converted to \<open>int\<close>, negative once bit 31 is set (the
  rule of C++14 and C++17; a count of 32 or more is undefined in every version of the
  language).  A subtraction whose exact result is no \<open>int\<close> is undefined as well.
\<close>

definition shl_int :: "int32_t \<Rightarrow> nat \<Rightarrow> error + int32_t" where
  "shl_int a n =
     (if n < 32 \<and> 0 \<le> sint a \<and> sint a * 2 ^ n < 2 ^ 32 then Inr (push_bit n a)
      else Inl Undefined_behaviour)"

definition sub_int :: "int32_t \<Rightarrow> int32_t \<Rightarrow> error + int32_t" where
  "sub_int a b =
     (if - (2 ^ 31) \<le> sint a - sint b \<and> sint a - sint b < 2 ^ 31 then Inr (a - b)
      else Inl Undefined_behaviour)"

section \<open>The RLE / bit-packing hybrid decoder (class RleBpDecoder)\<close>

text \<open>
  \<open>mem\<close> and \<open>buffer\<close> together are the C++ pointer \<open>buffer\<close>: \<open>mem\<close> is the region it
  points into (a page of the chunk buffer and everything that follows it in memory),
  \<open>buffer\<close> the current offset.  \<open>bit_width\<close> is the C++ \<open>int bit_width_\<close>, which the
  constructor only ever sets to a value below 64.  The constructor computes
  \<open>(1 << bit_width_) - 1\<close> in \<open>int\<close> and converts the result to the \<open>uint32_t max_val\<close>.
\<close>

record RleBpDecoder =
  mem :: "byte list"
  buffer :: nat
  buffer_len :: uint32_t
  bit_width :: nat
  current_value :: uint64_t
  repeat_count :: uint32_t
  literal_count :: uint32_t
  byte_encoded_len :: uint8_t
  max_val :: uint32_t

definition RleBpDecoder_new :: "byte list \<Rightarrow> nat \<Rightarrow> uint32_t \<Rightarrow> uint32_t \<Rightarrow> error + RleBpDecoder" where
  "RleBpDecoder_new m p len bw =
     (if bw \<ge> 64 then Inl (Runtime_error ''Decode bit width too large'')
      else
        and_then (shl_int 1 (unat bw)) (\<lambda>shifted.
        and_then (sub_int shifted 1) (\<lambda>mv.
          Inr \<lparr> mem = m, buffer = p, buffer_len = len, bit_width = unat bw,
                current_value = 0, repeat_count = 0, literal_count = 0,
                byte_encoded_len = ucast ((bw + 7) div 8),
                max_val = mv \<rparr>)))"

text \<open>
  \<open>VarintDecode\<close>: the loop variable \<open>shift\<close> takes the values 0, 7, 14, 21, 28 and the
  loop throws once it exceeds 32.  \<open>(byte & 127) << shift\<close> is a shift of an \<open>int\<close>.  The
  result is the decoded value and the number of bytes read.
\<close>

function VarintDecode_loop :: "byte list \<Rightarrow> nat \<Rightarrow> uint32_t \<Rightarrow> nat \<Rightarrow> nat \<Rightarrow> error + (uint32_t \<times> nat)" where
  "VarintDecode_loop m source result shift len =
     (case load8 m source of
        Inl e \<Rightarrow> Inl e
      | Inr byte \<Rightarrow>
          (case shl_int (ucast (byte AND 127)) shift of
             Inl e \<Rightarrow> Inl e
           | Inr shifted \<Rightarrow>
               (let result' = result OR shifted in
                if byte AND 128 = 0 then Inr (result', len + 1)
                else if shift + 7 > 32
                  then Inl (Runtime_error ''Varint-decoding found too large number'')
                else VarintDecode_loop m (source + 1) result' (shift + 7) (len + 1))))"
  by pat_completeness auto
termination
  by (relation "measure (\<lambda>(m, source, result, shift, len). 33 - shift)") auto

declare VarintDecode_loop.simps [simp del]

definition VarintDecode :: "byte list \<Rightarrow> nat \<Rightarrow> error + (uint32_t \<times> nat)" where
  "VarintDecode m source = VarintDecode_loop m source 0 0 0"

text \<open>
  The loop of \<open>NextCounts\<close> that assembles \<open>current_value_\<close>.  Each byte is promoted to
  \<open>int\<close>, shifted as an \<open>int\<close> and only then converted (with sign extension) to the
  64-bit \<open>current_value_\<close>.  From the fifth byte on the shift count is 32 or more.
\<close>

function read_current_value :: "byte list \<Rightarrow> nat \<Rightarrow> nat \<Rightarrow> nat \<Rightarrow> uint64_t \<Rightarrow> error + (uint64_t \<times> nat)" where
  "read_current_value m p i n cv =
     (if i < n then
        (case load8 m p of
           Inl e \<Rightarrow> Inl e
         | Inr b \<Rightarrow>
             (case shl_int (ucast b) (i * 8) of
                Inl e \<Rightarrow> Inl e
              | Inr shifted \<Rightarrow> read_current_value m (p + 1) (i + 1) n (cv OR scast shifted)))
      else Inr (cv, p))"
  by pat_completeness auto
termination
  by (relation "measure (\<lambda>(m, p, i, n, cv). n - i)") auto

declare read_current_value.simps [simp del]

definition NextCounts :: "RleBpDecoder \<Rightarrow> error + (bool \<times> RleBpDecoder)" where
  "NextCounts d =
     (case VarintDecode (mem d) (buffer d) of
        Inl e \<Rightarrow> Inl e
      | Inr (indicator_value, len) \<Rightarrow>
          (let d1 = d\<lparr>buffer := buffer d + len\<rparr> in
           if indicator_value AND 1 \<noteq> 0
           then Inr (True, d1\<lparr>literal_count := drop_bit 1 indicator_value * 8\<rparr>)
           else
             (case read_current_value (mem d1) (buffer d1) 0 (unat (byte_encoded_len d1)) 0 of
                Inl e \<Rightarrow> Inl e
              | Inr (cv, p) \<Rightarrow>
                  if cv > ucast (max_val d1)
                  then Inl (Runtime_error ''Payload value bigger than allowed. Corrupted file?'')
                  else Inr (True, d1\<lparr>repeat_count := drop_bit 1 indicator_value,
                                      current_value := cv, buffer := p\<rparr>))))"

text \<open>
  \<open>bitunpack_rev\<close>: one value of \<open>encoding_length\<close> bits, least significant bit first,
  starting at bit \<open>source_offset\<close> of the region at \<open>source\<close>.  The bit is computed as an
  \<open>int\<close>, shifted as an \<open>int\<close> and then converted to the element type.
\<close>

function bitunpack_rev :: "byte list \<Rightarrow> nat \<Rightarrow> nat \<Rightarrow> nat \<Rightarrow> nat \<Rightarrow> 'a::len word \<Rightarrow> error + ('a word \<times> nat)" where
  "bitunpack_rev m source source_offset j encoding_length target =
     (if j < encoding_length then
        (case load8 m (source + source_offset div 8) of
           Inl e \<Rightarrow> Inl e
         | Inr b \<Rightarrow>
             (case shl_int (1 AND drop_bit (source_offset mod 8) (ucast b)) j of
                Inl e \<Rightarrow> Inl e
              | Inr shifted \<Rightarrow> bitunpack_rev m source (source_offset + 1) (j + 1) encoding_length
                                 (target OR scast shifted)))
      else Inr (target, source_offset))"
  by pat_completeness auto
termination
  by (relation "measure (\<lambda>(m, source, source_offset, j, encoding_length, target). encoding_length - j)") auto

declare bitunpack_rev.simps [simp del]

text \<open>The scalar loop of \<open>BitUnpack\<close> (element size other than 4 bytes).\<close>

function BitUnpack_scalar :: "byte list \<Rightarrow> nat \<Rightarrow> nat \<Rightarrow> nat \<Rightarrow> nat \<Rightarrow> nat \<Rightarrow> 'a::len word list \<Rightarrow> error + 'a word list" where
  "BitUnpack_scalar m p w buffer_offset i count dest =
     (if i < count then
        (case bitunpack_rev m p buffer_offset 0 w 0 of
           Inl e \<Rightarrow> Inl e
         | Inr (v, buffer_offset') \<Rightarrow> BitUnpack_scalar m p w buffer_offset' (i + 1) count (dest @ [v]))
      else Inr dest)"
  by pat_completeness auto
termination
  by (relation "measure (\<lambda>(m, p, w, buffer_offset, i, count, dest). count - i)") auto

declare BitUnpack_scalar.simps [simp del]

text \<open>
  Modelled from the spec: the bit-unpack kernels \<open>nullunpacker32\<close>, \<open>unpack1_32\<close>, ...,
  \<open>unpack32_32\<close> of \<open>bpacking.h\<close> are not among the sources.  The specification describes
  them as a family indexed by the bit width 0..32 that decodes 32 packed little-endian
  values per call; a call at width \<open>w\<close> consumes \<open>w\<close> 32-bit words of input.
\<close>

definition stream_bit :: "byte list \<Rightarrow> nat \<Rightarrow> nat \<Rightarrow> bool" where
  "stream_bit m p n = bit (m ! (p + n div 8)) (n mod 8)"

definition unpackN_32 :: "nat \<Rightarrow> byte list \<Rightarrow> nat \<Rightarrow> error + uint32_t list" where
  "unpackN_32 w m p =
     (if p + 4 * w > length m then Inl Undefined_behaviour
      else Inr (map (\<lambda>k. horner_sum of_bool 2 (map (\<lambda>j. stream_bit m p (k * w + j)) [0..<w]))
                    [0..<32]))"

fun unpack32_loops :: "nat \<Rightarrow> byte list \<Rightarrow> nat \<Rightarrow> nat \<Rightarrow> uint32_t list \<Rightarrow> error + uint32_t list" where
  "unpack32_loops w m p 0 out = Inr out"
| "unpack32_loops w m p (Suc num_loops) out =
     (case unpackN_32 w m p of
        Inl e \<Rightarrow> Inl e
      | Inr vs \<Rightarrow> unpack32_loops w m (p + 4 * w) num_loops (out @ vs))"

text \<open>
  \<open>unpack32\<close>: \<open>batch_size\<close> is an \<open>int\<close>; a negative one gives no loop iteration.  The
  \<open>switch\<close> on the width comes first and throws for widths above 32.
\<close>

definition unpack32 :: "byte list \<Rightarrow> nat \<Rightarrow> int32_t \<Rightarrow> nat \<Rightarrow> error + uint32_t list" where
  "unpack32 m p batch_size num_bits =
     (let num_loops = (if sint batch_size < 0 then 0 else nat (sint batch_size) div 32) in
      if num_bits > 32 then Inl (Runtime_error ''Unsupported bit packing width'')
      else unpack32_loops num_bits m p num_loops [])"

text \<open>
  \<open>BitUnpack\<close> returns the \<open>count\<close> values it decoded together with the advanced
  decoder; the caller stores them at \<open>dest\<close>.  For 4-byte elements the kernels fill a
  scratch array of \<open>bitpack_read_size\<close> elements of which the first \<open>count\<close> are copied;
  copying more than the kernels wrote reads memory that was never written.
\<close>

definition BitUnpack :: "RleBpDecoder \<Rightarrow> uint32_t \<Rightarrow> error + ('a::len word list \<times> RleBpDecoder)" where
  "BitUnpack d count =
     (let d' = d\<lparr>buffer := buffer d + unat (word_of_nat (bit_width d) * count :: 32 word) div 8\<rparr> in
      if LENGTH('a) = 32 then
        (let bitpack_read_size = ((count + 31) div 32) * 32 in
         case unpack32 (mem d) (buffer d) bitpack_read_size (bit_width d) of
           Inl e \<Rightarrow> Inl e
         | Inr test \<Rightarrow>
             if unat count \<le> length test then Inr (map ucast (take (unat count) test), d')
             else Inl Undefined_behaviour)
      else
        (case BitUnpack_scalar (mem d) (buffer d) (bit_width d) 0 0 (unat count) [] of
           Inl e \<Rightarrow> Inl e
         | Inr dest \<Rightarrow> Inr (dest, d')))"

text \<open>Writing a run of elements through a pointer \<open>(region, offset)\<close>.\<close>

definition store_range :: "'a list \<Rightarrow> nat \<Rightarrow> 'a list \<Rightarrow> error + 'a list" where
  "store_range xs off vs =
     (if off + length vs \<le> length xs
      then Inr (take off xs @ vs @ drop (off + length vs) xs)
      else Inl Undefined_behaviour)"

text \<open>
  \<open>GetBatch\<close>.  \<open>values\<close> and \<open>off\<close> are the destination pointer.  \<open>batch_size\<close> is an
  \<open>int\<close> that the loop compares with and subtracts from the unsigned \<open>values_read\<close>, so
  it is used as an unsigned 32-bit value throughout.  The local \<open>repeat_batch\<close> is an
  \<open>int\<close>: if it is negative the range handed to \<open>std::fill\<close> is not a valid range.  The
  result is the returned count, the destination region and the decoder afterwards.
\<close>

function GetBatch_loop :: "RleBpDecoder \<Rightarrow> 'a::len word list \<Rightarrow> nat \<Rightarrow> uint32_t \<Rightarrow> uint32_t
    \<Rightarrow> error + (uint32_t \<times> 'a word list \<times> RleBpDecoder)" where
  "GetBatch_loop d values off batch_size values_read =
     (if values_read < batch_size then
        if repeat_count d > 0 then
          (let repeat_batch = min (batch_size - values_read) (repeat_count d) in
           if sint repeat_batch < 0 then Inl Undefined_behaviour
           else
             (case store_range values (off + unat values_read)
                     (replicate (unat repeat_batch) (ucast (current_value d))) of
                Inl e \<Rightarrow> Inl e
              | Inr values' \<Rightarrow>
                  GetBatch_loop (d\<lparr>repeat_count := repeat_count d - repeat_batch\<rparr>)
                    values' off batch_size (values_read + repeat_batch)))
        else if literal_count d > 0 then
          (let literal_batch = min (batch_size - values_read) (literal_count d) in
           case BitUnpack d literal_batch of
             Inl e \<Rightarrow> Inl e
           | Inr (vs, d') \<Rightarrow>
               (case store_range values (off + unat values_read) vs of
                  Inl e \<Rightarrow> Inl e
                | Inr values' \<Rightarrow>
                    GetBatch_loop (d'\<lparr>literal_count := literal_count d' - literal_batch\<rparr>)
                      values' off batch_size (values_read + literal_batch)))
        else
          (case NextCounts d of
             Inl e \<Rightarrow> Inl e
           | Inr (ok, d') \<Rightarrow>
               if \<not> ok then Inr (values_read, values, d')
               else GetBatch_loop d' values off batch_size values_read)
      else Inr (values_read, values, d))"
  by pat_completeness auto

text \<open>Facts for the termination of the loop: every new run indicator moves the cursor.\<close>

lemma VarintDecode_loop_len:
  "VarintDecode_loop m s r sh len = Inr (v, len') \<Longrightarrow> len < len' \<and> s + (len' - len) \<le> length m"
proof (induction m s r sh len rule: VarintDecode_loop.induct)
  case (1 m source result shift len)
  from "1.prems" obtain byte where b: "load8 m source = Inr byte"
    by (subst (asm) VarintDecode_loop.simps) (auto split: sum.splits)
  then have lt: "source < length m"
    by (auto simp: load8_def split: if_splits)
  from "1.prems" b obtain shifted where s: "shl_int (ucast (byte AND 127)) shift = Inr shifted"
    by (subst (asm) VarintDecode_loop.simps) (auto split: sum.splits)
  define result' where "result' = result OR shifted"
  show ?case
  proof (cases "byte AND 128 = 0")
    case True
    with "1.prems" b s have "len' = len + 1"
      by (subst (asm) VarintDecode_loop.simps) (simp add: Let_def)
    with lt show ?thesis by simp
  next
    case False
    with "1.prems" b s have nt: "\<not> 32 < shift + 7"
      and rec: "VarintDecode_loop m (source + 1) result' (shift + 7) (len + 1) = Inr (v, len')"
      by (subst (asm) VarintDecode_loop.simps, simp add: Let_def result'_def split: if_splits)+
    from "1.IH" [OF b s result'_def False nt rec] show ?thesis by arith
  qed
qed

lemma read_current_value_pos:
  "read_current_value m p i n cv = Inr (cv', p') \<Longrightarrow> p \<le> length m \<Longrightarrow> p \<le> p' \<and> p' \<le> length m"
proof (induction m p i n cv rule: read_current_value.induct)
  case (1 m p i n cv)
  show ?case
  proof (cases "i < n")
    case False
    with "1.prems" show ?thesis
      by (subst (asm) read_current_value.simps) simp
  next
    case True
    with "1.prems"(1) obtain b shifted where b: "load8 m p = Inr b"
      and s: "shl_int (ucast b) (i * 8) = Inr shifted"
      and rec: "read_current_value m (p + 1) (i + 1) n (cv OR scast shifted) = Inr (cv', p')"
      by (subst (asm) read_current_value.simps) (auto split: sum.splits)
    from b have "p < length m"
      by (auto simp: load8_def split: if_splits)
    with "1.IH" [OF True b s rec] show ?thesis by simp
  qed
qed

lemma NextCounts_advances:
  "NextCounts d = Inr (ok, d') \<Longrightarrow>
     mem d' = mem d \<and> buffer d < buffer d' \<and> buffer d' \<le> length (mem d)"
  by (auto simp: NextCounts_def VarintDecode_def Let_def split: sum.splits if_splits prod.splits
      dest!: VarintDecode_loop_len read_current_value_pos)

lemma unat_min: "unat (min a b) = min (unat a) (unat (b::'a::len word))"
  by (simp add: min_def word_le_nat_alt)

lemma batch_step:
  fixes vr bs c :: "'a::len word"
  assumes "vr < bs" "0 < c"
  shows "unat (vr + min (bs - vr) c) = unat vr + min (unat bs - unat vr) (unat c)"
    and "0 < min (unat bs - unat vr) (unat c)"
    and "unat bs - unat (vr + min (bs - vr) c) < unat bs - unat vr"
proof -
  have le: "vr \<le> bs" using assms(1) by simp
  have sub: "unat (bs - vr) = unat bs - unat vr" using le by (simp add: unat_sub)
  have lt: "unat vr < unat bs" using assms(1) by (simp add: word_less_nat_alt)
  have c0: "0 < unat c" using assms(2) by (simp add: word_less_nat_alt)
  have bnd: "unat bs < 2 ^ LENGTH('a)" by simp
  have ub: "unat vr + min (unat bs - unat vr) (unat c) \<le> unat bs"
    using lt by simp
  have "unat vr + min (unat bs - unat vr) (unat c) < 2 ^ LENGTH('a)"
    by (rule le_less_trans [OF ub bnd])
  then have "unat vr + unat (min (bs - vr) c) < 2 ^ LENGTH('a)"
    by (simp add: unat_min sub)
  then have "unat (vr + min (bs - vr) c) = unat vr + unat (min (bs - vr) c)"
    by (simp add: unat_add_lem)
  then show eq: "unat (vr + min (bs - vr) c) = unat vr + min (unat bs - unat vr) (unat c)"
    by (simp add: unat_min sub)
  show pos: "0 < min (unat bs - unat vr) (unat c)" using lt c0 by simp
  show "unat bs - unat (vr + min (bs - vr) c) < unat bs - unat vr"
    using eq pos lt by arith
qed

termination GetBatch_loop
  apply (relation "measures [\<lambda>(d, values, off, batch_size, values_read). unat batch_size - unat values_read,
                        \<lambda>(d, values, off, batch_size, values_read). length (mem d) - buffer d]")
     apply simp
    apply (simp add: batch_step(3))
   apply (simp add: batch_step(3))
  apply (auto dest!: NextCounts_advances)
  done

declare GetBatch_loop.simps [simp del]

definition GetBatch :: "RleBpDecoder \<Rightarrow> 'a::len word list \<Rightarrow> nat \<Rightarrow> int32_t
    \<Rightarrow> error + (int32_t \<times> 'a word list \<times> RleBpDecoder)" where
  "GetBatch d values off batch_size = GetBatch_loop d values off batch_size 0"

text \<open>
  \<open>GetBatchSpaced\<close>.  \<open>defined\<close> is the region of the mask pointer, \<open>d_off\<close> the index
  into it; \<open>out\<close> and \<open>out_off\<close> are the output pointer, which the source advances.
  \<open>d_off\<close> is a \<open>uint32_t\<close> in the source; it only indexes the mask and is kept as a
  natural number here (it would take a mask of \<open>2^32\<close> bytes for it to wrap).

  The inner loop of a repeated run:
\<close>

function GetBatchSpaced_repeat :: "byte list \<Rightarrow> uint32_t \<Rightarrow> uint32_t \<Rightarrow> uint32_t \<Rightarrow> uint32_t
    \<Rightarrow> uint32_t \<Rightarrow> nat \<Rightarrow> error + (uint32_t \<times> uint32_t \<times> uint32_t \<times> nat)" where
  "GetBatchSpaced_repeat defined batch_size values_read repeat_cnt remaining_nulls repeat_batch d_off =
     (if repeat_cnt > 0 \<and> values_read + repeat_batch < batch_size then
        (case load8 defined d_off of
           Inl e \<Rightarrow> Inl e
         | Inr b \<Rightarrow>
             if b \<noteq> 0
             then GetBatchSpaced_repeat defined batch_size values_read (repeat_cnt - 1)
                    remaining_nulls (repeat_batch + 1) (d_off + 1)
             else GetBatchSpaced_repeat defined batch_size values_read repeat_cnt
                    (remaining_nulls - 1) (repeat_batch + 1) (d_off + 1))
      else Inr (repeat_cnt, remaining_nulls, repeat_batch, d_off))"
  by pat_completeness auto
termination
  by (relation "measure (\<lambda>(defined, batch_size, values_read, repeat_cnt, remaining_nulls,
                           repeat_batch, d_off). length defined - d_off)")
     (auto simp: load8_def split: if_splits)

declare GetBatchSpaced_repeat.simps [simp del]

text \<open>The loop that scatters the literals of a bit-packed run to the defined positions.\<close>

function GetBatchSpaced_literal :: "byte list \<Rightarrow> 'a::len word list \<Rightarrow> uint32_t \<Rightarrow> 'a word list \<Rightarrow> nat
    \<Rightarrow> nat \<Rightarrow> uint32_t \<Rightarrow> uint32_t \<Rightarrow> error + ('a word list \<times> nat \<times> nat \<times> uint32_t)" where
  "GetBatchSpaced_literal defined indices literal_batch out out_off d_off skipped literals_read =
     (if literals_read < literal_batch then
        (case load8 defined d_off of
           Inl e \<Rightarrow> Inl e
         | Inr b \<Rightarrow>
             if b \<noteq> 0 then
               (if out_off < length out
                then GetBatchSpaced_literal defined indices literal_batch
                       (out[out_off := indices ! unat literals_read]) (out_off + 1) (d_off + 1)
                       skipped (literals_read + 1)
                else Inl Undefined_behaviour)
             else GetBatchSpaced_literal defined indices literal_batch out (out_off + 1) (d_off + 1)
                    (skipped + 1) literals_read)
      else Inr (out, out_off, d_off, skipped))"
  by pat_completeness auto
termination
  by (relation "measure (\<lambda>(defined, indices, literal_batch, out, out_off, d_off, skipped,
                           literals_read). length defined - d_off)")
     (auto simp: load8_def split: if_splits)

declare GetBatchSpaced_literal.simps [simp del]

lemma GetBatchSpaced_repeat_d_off:
  "GetBatchSpaced_repeat defined bs vr rc rn rb d_off = Inr (rc', rn', rb', d_off') \<Longrightarrow> d_off \<le> d_off'"
proof (induction defined bs vr rc rn rb d_off rule: GetBatchSpaced_repeat.induct)
  case (1 defined bs vr rc rn rb d_off)
  show ?case
  proof (cases "rc > 0 \<and> vr + rb < bs")
    case False
    with "1.prems" show ?thesis
      by (subst (asm) GetBatchSpaced_repeat.simps) simp
  next
    case True
    with "1.prems" obtain b where b: "load8 defined d_off = Inr b"
      by (subst (asm) GetBatchSpaced_repeat.simps) (auto split: sum.splits)
    show ?thesis
    proof (cases "b \<noteq> 0")
      case True
      from "1.prems" \<open>rc > 0 \<and> vr + rb < bs\<close> b True
      have "GetBatchSpaced_repeat defined bs vr (rc - 1) rn (rb + 1) (d_off + 1) = Inr (rc', rn', rb', d_off')"
        by (subst (asm) GetBatchSpaced_repeat.simps) simp
      from "1.IH"(1) [OF \<open>rc > 0 \<and> vr + rb < bs\<close> b True this] show ?thesis by simp
    next
      case False
      from "1.prems" \<open>rc > 0 \<and> vr + rb < bs\<close> b False
      have "GetBatchSpaced_repeat defined bs vr rc (rn - 1) (rb + 1) (d_off + 1) = Inr (rc', rn', rb', d_off')"
        by (subst (asm) GetBatchSpaced_repeat.simps) simp
      from "1.IH"(2) [OF \<open>rc > 0 \<and> vr + rb < bs\<close> b False this] show ?thesis by simp
    qed
  qed
qed

lemma GetBatchSpaced_literal_d_off:
  "GetBatchSpaced_literal defined indices lb out out_off d_off sk lr = Inr (out', out_off', d_off', sk')
     \<Longrightarrow> d_off \<le> d_off'"
proof (induction defined indices lb out out_off d_off sk lr rule: GetBatchSpaced_literal.induct)
  case (1 defined indices lb out out_off d_off sk lr)
  show ?case
  proof (cases "lr < lb")
    case False
    with "1.prems" show ?thesis
      by (subst (asm) GetBatchSpaced_literal.simps) simp
  next
    case lt: True
    with "1.prems" obtain b where b: "load8 defined d_off = Inr b"
      by (subst (asm) GetBatchSpaced_literal.simps) (auto split: sum.splits)
    show ?thesis
    proof (cases "b \<noteq> 0")
      case True
      from "1.prems" lt b True have inb: "out_off < length out"
        and rec: "GetBatchSpaced_literal defined indices lb (out[out_off := indices ! unat lr])
                    (out_off + 1) (d_off + 1) sk (lr + 1) = Inr (out', out_off', d_off', sk')"
        by (subst (asm) GetBatchSpaced_literal.simps, simp split: if_splits)+
      from "1.IH"(1) [OF lt b True inb rec] show ?thesis by simp
    next
      case False
      from "1.prems" lt b False
      have "GetBatchSpaced_literal defined indices lb out (out_off + 1) (d_off + 1) (sk + 1) lr
              = Inr (out', out_off', d_off', sk')"
        by (subst (asm) GetBatchSpaced_literal.simps) simp
      from "1.IH"(2) [OF lt b False this] show ?thesis by simp
    qed
  qed
qed

text \<open>
  The outer loop.  \<open>literal_batch\<close> is an \<open>int\<close>: a negative one becomes a huge count
  for \<open>BitUnpack\<close> into the 1024-element scratch array; a zero one leaves \<open>indices[0]\<close>
  unwritten before it is read.
\<close>

function GetBatchSpaced_loop :: "RleBpDecoder \<Rightarrow> uint32_t \<Rightarrow> byte list \<Rightarrow> 'a::len word list \<Rightarrow> nat
    \<Rightarrow> uint32_t \<Rightarrow> uint32_t \<Rightarrow> nat \<Rightarrow> error + (uint32_t \<times> 'a word list \<times> RleBpDecoder)" where
  "GetBatchSpaced_loop d batch_size defined out out_off values_read remaining_nulls d_off =
     (if values_read < batch_size then
        (case load8 defined d_off of
           Inl e \<Rightarrow> Inl e
         | Inr is_valid \<Rightarrow>
             if is_valid \<noteq> 0 then
               (case (if repeat_count d = 0 \<and> literal_count d = 0 then NextCounts d
                      else Inr (True, d)) of
                  Inl e \<Rightarrow> Inl e
                | Inr (ok, d1) \<Rightarrow>
                    if \<not> ok then Inr (values_read, out, d1)
                    else if repeat_count d1 > 0 then
                      (case GetBatchSpaced_repeat defined batch_size values_read
                              (repeat_count d1 - 1) remaining_nulls 1 (d_off + 1) of
                         Inl e \<Rightarrow> Inl e
                       | Inr (repeat_cnt, remaining_nulls', repeat_batch, d_off') \<Rightarrow>
                           (case store_range out out_off
                                   (replicate (unat repeat_batch) (ucast (current_value d1))) of
                              Inl e \<Rightarrow> Inl e
                            | Inr out' \<Rightarrow>
                                GetBatchSpaced_loop (d1\<lparr>repeat_count := repeat_cnt\<rparr>) batch_size
                                  defined out' (out_off + unat repeat_batch)
                                  (values_read + repeat_batch) remaining_nulls' d_off'))
                    else if literal_count d1 > 0 then
                      (let literal_batch0 = min (batch_size - values_read - remaining_nulls)
                                                (literal_count d1) in
                       if sint literal_batch0 < 0 then Inl Undefined_behaviour
                       else
                         (let literal_batch = (if sint literal_batch0 < 1024 then literal_batch0 else 1024) in
                          case BitUnpack d1 literal_batch of
                            Inl e \<Rightarrow> Inl e
                          | Inr (indices, d2) \<Rightarrow>
                              if literal_batch = 0 \<or> \<not> out_off < length out
                              then Inl Undefined_behaviour
                              else
                                (case GetBatchSpaced_literal defined indices literal_batch
                                        (out[out_off := indices ! 0]) (out_off + 1) (d_off + 1) 0 1 of
                                   Inl e \<Rightarrow> Inl e
                                 | Inr (out', out_off', d_off', skipped) \<Rightarrow>
                                     GetBatchSpaced_loop
                                       (d2\<lparr>literal_count := literal_count d2 - literal_batch\<rparr>)
                                       batch_size defined out' out_off'
                                       (values_read + literal_batch + skipped)
                                       (remaining_nulls - skipped) d_off')))
                    else GetBatchSpaced_loop d1 batch_size defined out out_off values_read
                           remaining_nulls (d_off + 1))
             else GetBatchSpaced_loop d batch_size defined out (out_off + 1) (values_read + 1)
                    (remaining_nulls - 1) (d_off + 1))
      else Inr (values_read, out, d))"
  by pat_completeness auto
termination
  apply (relation "measure (\<lambda>(d, batch_size, defined, out, out_off, values_read, remaining_nulls,
                              d_off). length defined - d_off)")
  apply (auto simp: load8_def split: if_splits
              dest!: GetBatchSpaced_repeat_d_off GetBatchSpaced_literal_d_off)
  done

declare GetBatchSpaced_loop.simps [simp del]

definition GetBatchSpaced :: "RleBpDecoder \<Rightarrow> uint32_t \<Rightarrow> uint32_t \<Rightarrow> byte list \<Rightarrow> 'a::len word list \<Rightarrow> nat
    \<Rightarrow> error + (int32_t \<times> 'a word list \<times> RleBpDecoder)" where
  "GetBatchSpaced d batch_size null_count defined out out_off =
     GetBatchSpaced_loop d batch_size defined out out_off 0 null_count 0"

section \<open>Metadata, result columns and the column scanner state\<close>

text \<open>
  The Thrift-generated metadata types (\<open>parquet_types.h\<close>) and the classes of
  \<open>miniparquet.h\<close> are declared outside the sources; the records below hold the fields
  the code uses, under the names it uses.  An optional Thrift field \<open>f\<close> comes with its
  flag \<open>__isset.f\<close>, here \<open>isset_f\<close>.
\<close>

datatype Type = BOOLEAN | INT32 | INT64 | INT96 | FLOAT | DOUBLE | BYTE_ARRAY | FIXED_LEN_BYTE_ARRAY
  | Type_other

datatype Encoding = PLAIN | PLAIN_DICTIONARY | RLE | BIT_PACKED | DELTA_BINARY_PACKED
  | DELTA_LENGTH_BYTE_ARRAY | DELTA_BYTE_ARRAY | RLE_DICTIONARY

datatype PageType = DATA_PAGE | INDEX_PAGE | DICTIONARY_PAGE | DATA_PAGE_V2

datatype CompressionCodec = UNCOMPRESSED | SNAPPY | GZIP | LZO | BROTLI | LZ4 | ZSTD

record DataPageHeader =
  dph_num_values :: int32_t
  dph_encoding :: Encoding
  definition_level_encoding :: Encoding

record DictionaryPageHeader =
  dict_num_values :: int32_t
  dict_encoding :: Encoding

record PageHeader =
  page_type :: PageType
  uncompressed_page_size :: int32_t
  compressed_page_size :: int32_t
  isset_data_page_header :: bool
  isset_dictionary_page_header :: bool
  isset_data_page_header_v2 :: bool
  data_page_header :: DataPageHeader
  dictionary_page_header :: DictionaryPageHeader

record SchemaElement =
  isset_type_length :: bool
  type_length :: int32_t

record ParquetColumn =
  col_type :: Type
  schema_element :: SchemaElement

text \<open>
  \<open>ResultColumn\<close>: \<open>data\<close> and \<open>defined\<close> are the regions of the two \<open>ByteBuffer\<close>s, whose
  \<open>ptr\<close> is their start; \<open>string_heap\<close> is the vector of owned character arrays.
\<close>

record ResultColumn =
  result_col_id :: nat
  data :: "byte list"
  defined :: "byte list"
  string_heap :: "byte list list"
  col :: ParquetColumn

text \<open>
  \<open>ColumnScan\<close>: \<open>page_buf\<close> is the region \<open>page_buf_ptr\<close> points into.
  \<open>page_buf_end_ptr\<close> is \<open>page_buf_ptr + page_buf_len\<close> with a 64-bit unsigned length that
  may come from a negative \<open>int32_t\<close>: as an offset into the region it is an integer that
  can lie before the start.  A dictionary of fixed-width values is the list of their
  byte images; \<open>None\<close> is the null pointer.
\<close>

record ColumnScan =
  page_header :: PageHeader
  seen_dict :: bool
  page_buf :: "byte list"
  page_buf_ptr :: nat
  page_buf_end_ptr :: int
  dict :: "byte list list option"
  dict_size :: uint64_t
  page_buf_len :: uint64_t
  page_start_row :: uint64_t
  type_len :: int32_t

text \<open>Memory access through a pointer: unchecked in the source.\<close>

definition load_range :: "byte list \<Rightarrow> nat \<Rightarrow> nat \<Rightarrow> error + byte list" where
  "load_range m p n =
     (if p + n \<le> length m then Inr (take n (drop p m)) else Inl Undefined_behaviour)"

definition load_le32 :: "byte list \<Rightarrow> nat \<Rightarrow> error + uint32_t" where
  "load_le32 m p =
     (case load_range m p 4 of Inl e \<Rightarrow> Inl e | Inr bs \<Rightarrow> Inr (horner_sum ucast 256 bs))"

definition le_bytes :: "nat \<Rightarrow> 'a::len word \<Rightarrow> byte list" where
  "le_bytes n w = map (\<lambda>k. ucast (drop_bit (8 * k) w)) [0..<n]"

text \<open>The value of an \<open>int32_t\<close> loop bound for a loop counting up from 0.\<close>

definition loop_bound :: "int32_t \<Rightarrow> nat" where
  "loop_bound n = (if sint n < 0 then 0 else nat (sint n))"

section \<open>The page decoder (class ColumnScan)\<close>

subsection \<open>Dictionary pages\<close>

text \<open>
  \<open>fill_dict\<close> for a value type of \<open>sz\<close> bytes.  The local \<open>dict_size\<close> is the \<open>int32_t\<close>
  \<open>num_values\<close>, compared as a signed number.
\<close>

fun fill_dict_loop :: "nat \<Rightarrow> nat \<Rightarrow> byte list \<Rightarrow> nat \<Rightarrow> byte list list \<Rightarrow> error + (byte list list \<times> nat)" where
  "fill_dict_loop sz 0 m p d = Inr (d, p)"
| "fill_dict_loop sz (Suc n) m p d =
     (case load_range m p sz of
        Inl e \<Rightarrow> Inl e
      | Inr v \<Rightarrow> fill_dict_loop sz n m (p + sz) (d @ [v]))"

definition fill_dict :: "nat \<Rightarrow> ColumnScan \<Rightarrow> error + ColumnScan" where
  "fill_dict sz cs =
     (case fill_dict_loop sz (loop_bound (dict_num_values (dictionary_page_header (page_header cs))))
             (page_buf cs) (page_buf_ptr cs) [] of
        Inl e \<Rightarrow> Inl e
      | Inr (d, p) \<Rightarrow> Inr (cs\<lparr>dict := Some d, page_buf_ptr := p\<rparr>))"

text \<open>
  The three lines that build a heap entry: \<open>new char[str_len + 1]\<close> with the sum taken
  in \<open>uint32_t\<close>, the terminating NUL at index \<open>str_len\<close>, and the \<open>memcpy\<close> of \<open>str_len\<close>
  bytes from the page.  If \<open>str_len + 1\<close> wraps to 0 both writes are outside the array.
\<close>

definition new_string :: "byte list \<Rightarrow> nat \<Rightarrow> uint32_t \<Rightarrow> error + byte list" where
  "new_string m p str_len =
     (if str_len + 1 = 0 then Inl Undefined_behaviour
      else
        (case load_range m p (unat str_len) of
           Inl e \<Rightarrow> Inl e
         | Inr bs \<Rightarrow>
             (let s0 = replicate (unat (str_len + 1)) (0xFF :: byte);
                  s1 = s0[unat str_len := 0]
              in Inr (bs @ drop (unat str_len) s1))))"

text \<open>
  The loop of \<open>scan_dict_page\<close> for \<open>BYTE_ARRAY\<close>.  The counter \<open>dict_index\<close> is an
  \<open>int32_t\<close> compared with the 64-bit unsigned member \<open>dict_size\<close>; incrementing it
  beyond \<open>2^31 - 1\<close> is a signed overflow.
\<close>

function dict_strings_loop :: "nat \<Rightarrow> ColumnScan \<Rightarrow> ResultColumn \<Rightarrow> error + (ColumnScan \<times> ResultColumn)" where
  "dict_strings_loop dict_index cs result_col =
     (if dict_index \<ge> 2 ^ 31 then Inl Undefined_behaviour
      else if dict_index < unat (dict_size cs) then
        (case load_le32 (page_buf cs) (page_buf_ptr cs) of
           Inl e \<Rightarrow> Inl e
         | Inr str_len \<Rightarrow>
             (let p = page_buf_ptr cs + 4 in
              if int p + uint str_len > page_buf_end_ptr cs
              then Inl (Runtime_error ''Declared string length exceeds payload size'')
              else
                (case new_string (page_buf cs) p str_len of
                   Inl e \<Rightarrow> Inl e
                 | Inr s \<Rightarrow>
                     dict_strings_loop (dict_index + 1)
                       (cs\<lparr>page_buf_ptr := p + unat str_len\<rparr>)
                       (result_col\<lparr>string_heap := string_heap result_col @ [s]\<rparr>))))
      else Inr (cs, result_col))"
  by pat_completeness auto
termination
  by (relation "measure (\<lambda>(dict_index, cs, result_col). 2 ^ 31 - dict_index)") auto

declare dict_strings_loop.simps [simp del]

definition scan_dict_page :: "ColumnScan \<Rightarrow> ResultColumn \<Rightarrow> error + (ColumnScan \<times> ResultColumn)" where
  "scan_dict_page cs result_col =
     (let ph = page_header cs in
      if isset_data_page_header ph \<or> \<not> isset_dictionary_page_header ph
      then Inl (Runtime_error ''Dictionary page header mismatch'')
      else if dict_encoding (dictionary_page_header ph) \<noteq> PLAIN
            \<and> dict_encoding (dictionary_page_header ph) \<noteq> PLAIN_DICTIONARY
      then Inl (Runtime_error ''Dictionary page has unsupported/invalid encoding'')
      else if seen_dict cs
      then Inl (Runtime_error ''Multiple dictionary pages for column chunk'')
      else
        (let cs1 = cs\<lparr>seen_dict := True,
                       dict_size := scast (dict_num_values (dictionary_page_header ph))\<rparr>;
             numeric = (\<lambda>sz. and_then (fill_dict sz cs1) (\<lambda>cs2. Inr (cs2, result_col)))
         in case col_type (col result_col) of
              BOOLEAN \<Rightarrow> numeric 1
            | INT32 \<Rightarrow> numeric 4
            | INT64 \<Rightarrow> numeric 8
            | INT96 \<Rightarrow> numeric 12
            | FLOAT \<Rightarrow> numeric 4
            | DOUBLE \<Rightarrow> numeric 8
            | BYTE_ARRAY \<Rightarrow> dict_strings_loop 0 cs1 result_col
            | _ \<Rightarrow> Inl (Runtime_error ''Unsupported type for dictionary'')))"

subsection \<open>Data pages, PLAIN encoding\<close>

text \<open>
  \<open>fill_values_plain\<close> for a value type of \<open>sz\<close> bytes; \<open>n\<close> is the loop bound
  \<open>num_values\<close>.  The mask is read at the index \<open>val_offset\<close>, the slot written is
  \<open>row_idx = page_start_row + val_offset\<close>.
\<close>

function fill_values_plain_loop :: "nat \<Rightarrow> nat \<Rightarrow> nat \<Rightarrow> ColumnScan \<Rightarrow> ResultColumn
    \<Rightarrow> error + (ColumnScan \<times> ResultColumn)" where
  "fill_values_plain_loop sz n val_offset cs result_col =
     (if val_offset < n then
        (case load8 (defined result_col) val_offset of
           Inl e \<Rightarrow> Inl e
         | Inr b \<Rightarrow>
             if b = 0 then fill_values_plain_loop sz n (val_offset + 1) cs result_col
             else
               (let row_idx = page_start_row cs + word_of_nat val_offset in
                case load_range (page_buf cs) (page_buf_ptr cs) sz of
                  Inl e \<Rightarrow> Inl e
                | Inr v \<Rightarrow>
                    (case store_range (data result_col) (unat row_idx * sz) v of
                       Inl e \<Rightarrow> Inl e
                     | Inr data' \<Rightarrow>
                         fill_values_plain_loop sz n (val_offset + 1)
                           (cs\<lparr>page_buf_ptr := page_buf_ptr cs + sz\<rparr>)
                           (result_col\<lparr>data := data'\<rparr>))))
      else Inr (cs, result_col))"
  by pat_completeness auto
termination
  by (relation "measure (\<lambda>(sz, n, val_offset, cs, result_col). n - val_offset)") auto

declare fill_values_plain_loop.simps [simp del]

definition fill_values_plain :: "nat \<Rightarrow> ColumnScan \<Rightarrow> ResultColumn \<Rightarrow> error + (ColumnScan \<times> ResultColumn)" where
  "fill_values_plain sz cs result_col =
     fill_values_plain_loop sz (loop_bound (dph_num_values (data_page_header (page_header cs))))
       0 cs result_col"

text \<open>
  The loop that counts the nulls of a page: a \<open>uint32_t\<close> counter compared with the
  \<open>int32_t\<close> \<open>num_values\<close> as an unsigned number (\<open>n\<close>).
\<close>

function count_nulls :: "byte list \<Rightarrow> nat \<Rightarrow> nat \<Rightarrow> uint32_t \<Rightarrow> error + uint32_t" where
  "count_nulls defined_buf n i null_count =
     (if i < n then
        (case load8 defined_buf i of
           Inl e \<Rightarrow> Inl e
         | Inr b \<Rightarrow> count_nulls defined_buf n (i + 1) (if b = 0 then null_count + 1 else null_count))
      else Inr null_count)"
  by pat_completeness auto
termination
  by (relation "measure (\<lambda>(defined_buf, n, i, null_count). n - i)") auto

declare count_nulls.simps [simp del]

text \<open>
  The loop of \<open>scan_data_page_plain\<close> for \<open>BYTE_ARRAY\<close> and \<open>FIXED_LEN_BYTE_ARRAY\<close>.
  \<open>str_len\<close> is carried from one iteration to the next; for \<open>BYTE_ARRAY\<close> each value
  brings its own.  (Here the source copies the bytes first and sets the NUL second; the
  two writes touch different indices.)
\<close>

function plain_strings_loop :: "nat \<Rightarrow> nat \<Rightarrow> uint32_t \<Rightarrow> ColumnScan \<Rightarrow> ResultColumn
    \<Rightarrow> error + (ColumnScan \<times> ResultColumn)" where
  "plain_strings_loop n val_offset str_len cs result_col =
     (if val_offset < n then
        (case load8 (defined result_col) val_offset of
           Inl e \<Rightarrow> Inl e
         | Inr b \<Rightarrow>
             if b = 0 then plain_strings_loop n (val_offset + 1) str_len cs result_col
             else
               (let row_idx = page_start_row cs + word_of_nat val_offset in
                case (if col_type (col result_col) = BYTE_ARRAY
                      then and_then (load_le32 (page_buf cs) (page_buf_ptr cs))
                             (\<lambda>l. Inr (l, page_buf_ptr cs + 4))
                      else Inr (str_len, page_buf_ptr cs)) of
                  Inl e \<Rightarrow> Inl e
                | Inr (str_len', p) \<Rightarrow>
                    if int p + uint str_len' > page_buf_end_ptr cs
                    then Inl (Runtime_error ''Declared string length exceeds payload size'')
                    else
                      (case new_string (page_buf cs) p str_len' of
                         Inl e \<Rightarrow> Inl e
                       | Inr s \<Rightarrow>
                           (let heap' = string_heap result_col @ [s] in
                            case store_range (data result_col) (unat row_idx * 8)
                                   (le_bytes 8 (word_of_nat (length heap') - 1 :: 64 word)) of
                              Inl e \<Rightarrow> Inl e
                            | Inr data' \<Rightarrow>
                                plain_strings_loop n (val_offset + 1) str_len'
                                  (cs\<lparr>page_buf_ptr := p + unat str_len'\<rparr>)
                                  (result_col\<lparr>string_heap := heap', data := data'\<rparr>)))))
      else Inr (cs, result_col))"
  by pat_completeness auto
termination
  by (relation "measure (\<lambda>(n, val_offset, str_len, cs, result_col). n - val_offset)") auto

declare plain_strings_loop.simps [simp del]

definition scan_data_page_plain :: "ColumnScan \<Rightarrow> ResultColumn \<Rightarrow> error + (ColumnScan \<times> ResultColumn)" where
  "scan_data_page_plain cs result_col =
     (let num_values = dph_num_values (data_page_header (page_header cs)) in
      case count_nulls (defined result_col) (unat num_values) 0 0 of
        Inl e \<Rightarrow> Inl e
      | Inr null_count \<Rightarrow>
          (case col_type (col result_col) of
             BOOLEAN \<Rightarrow> fill_values_plain 1 cs result_col
           | INT32 \<Rightarrow> fill_values_plain 4 cs result_col
           | INT64 \<Rightarrow> fill_values_plain 8 cs result_col
           | INT96 \<Rightarrow> fill_values_plain 12 cs result_col
           | FLOAT \<Rightarrow> fill_values_plain 4 cs result_col
           | DOUBLE \<Rightarrow> fill_values_plain 8 cs result_col
           | FIXED_LEN_BYTE_ARRAY \<Rightarrow>
               plain_strings_loop (loop_bound num_values) 0 (type_len cs) cs result_col
           | BYTE_ARRAY \<Rightarrow>
               plain_strings_loop (loop_bound num_values) 0 (type_len cs) cs result_col
           | _ \<Rightarrow> Inl (Runtime_error ''Unsupported type page_plain'')))"

subsection \<open>Data pages, dictionary encoding\<close>

text \<open>
  Modelled from the spec: \<open>Dictionary<T>::get\<close> is declared in \<open>miniparquet.h\<close>, which is
  not among the sources.  The specification has the value at a defined position be
  \<open>dict[offsets[i]]\<close> with the index inside \<open>[0, dict_size)\<close>; an index outside the table
  is an error.
\<close>

definition Dictionary_get :: "byte list list option \<Rightarrow> uint32_t \<Rightarrow> error + byte list" where
  "Dictionary_get d offset =
     (case d of
        None \<Rightarrow> Inl Undefined_behaviour
      | Some vs \<Rightarrow>
          if unat offset < length vs then Inr (vs ! unat offset)
          else Inl (Runtime_error ''Dictionary offset out of bounds''))"

function fill_values_dict_loop :: "nat \<Rightarrow> nat \<Rightarrow> nat \<Rightarrow> uint32_t list \<Rightarrow> ColumnScan \<Rightarrow> ResultColumn
    \<Rightarrow> error + ResultColumn" where
  "fill_values_dict_loop sz n val_offset offsets cs result_col =
     (if val_offset < n then
        (let row_idx = page_start_row cs + word_of_nat val_offset in
         case load8 (defined result_col) val_offset of
           Inl e \<Rightarrow> Inl e
         | Inr b \<Rightarrow>
             if b \<noteq> 0 then
               (case Dictionary_get (dict cs) (offsets ! val_offset) of
                  Inl e \<Rightarrow> Inl e
                | Inr v \<Rightarrow>
                    (case store_range (data result_col) (unat row_idx * sz) (take sz v) of
                       Inl e \<Rightarrow> Inl e
                     | Inr data' \<Rightarrow>
                         fill_values_dict_loop sz n (val_offset + 1) offsets cs
                           (result_col\<lparr>data := data'\<rparr>)))
             else fill_values_dict_loop sz n (val_offset + 1) offsets cs result_col)
      else Inr result_col)"
  by pat_completeness auto
termination
  by (relation "measure (\<lambda>(sz, n, val_offset, offsets, cs, result_col). n - val_offset)") auto

declare fill_values_dict_loop.simps [simp del]

definition fill_values_dict :: "nat \<Rightarrow> uint32_t list \<Rightarrow> ColumnScan \<Rightarrow> ResultColumn \<Rightarrow> error + ResultColumn" where
  "fill_values_dict sz offsets cs result_col =
     fill_values_dict_loop sz (loop_bound (dph_num_values (data_page_header (page_header cs))))
       0 offsets cs result_col"

text \<open>
  The loop of \<open>scan_data_page_dict\<close> for \<open>BYTE_ARRAY\<close>: every slot of the page receives
  its 32-bit offset, widened to the 64-bit slot.
\<close>

function dict_offsets_loop :: "nat \<Rightarrow> nat \<Rightarrow> uint32_t list \<Rightarrow> ColumnScan \<Rightarrow> ResultColumn
    \<Rightarrow> error + ResultColumn" where
  "dict_offsets_loop n val_offset offsets cs result_col =
     (if val_offset < n then
        (case store_range (data result_col)
                (unat (page_start_row cs + word_of_nat val_offset) * 8)
                (le_bytes 8 (ucast (offsets ! val_offset) :: 64 word)) of
           Inl e \<Rightarrow> Inl e
         | Inr data' \<Rightarrow>
             dict_offsets_loop n (val_offset + 1) offsets cs (result_col\<lparr>data := data'\<rparr>))
      else Inr result_col)"
  by pat_completeness auto
termination
  by (relation "measure (\<lambda>(n, val_offset, offsets, cs, result_col). n - val_offset)") auto

declare dict_offsets_loop.simps [simp del]

text \<open>
  \<open>decode_offsets\<close> is the first half of \<open>scan_data_page_dict\<close>: the array \<open>offsets\<close> and
  what the index stream puts into it.  \<open>new uint32_t[num_values]\<close> is not initialised:
  \<open>fresh\<close> stands for the unknown contents of the new array.  A negative \<open>num_values\<close>
  makes \<open>new\<close> throw (\<open>std::bad_array_new_length\<close>).
\<close>

definition decode_offsets :: "(nat \<Rightarrow> uint32_t) \<Rightarrow> ColumnScan \<Rightarrow> ResultColumn
    \<Rightarrow> error + (uint32_t list \<times> ColumnScan)" where
  "decode_offsets fresh cs result_col =
     (let num_values = dph_num_values (data_page_header (page_header cs)) in
      if sint num_values < 0 then Inl (Runtime_error ''std::bad_array_new_length'')
      else
        (let offsets0 = map fresh [0..<unat num_values] in
         case load8 (page_buf cs) (page_buf_ptr cs) of
           Inl e \<Rightarrow> Inl e
         | Inr enc_length \<Rightarrow>
             (let cs1 = cs\<lparr>page_buf_ptr := page_buf_ptr cs + 1\<rparr> in
              if enc_length > 0 then
                (case RleBpDecoder_new (page_buf cs1) (page_buf_ptr cs1) (ucast (page_buf_len cs1))
                        (ucast enc_length) of
                   Inl e \<Rightarrow> Inl e
                 | Inr dec \<Rightarrow>
                     (case count_nulls (defined result_col) (unat num_values) 0 0 of
                        Inl e \<Rightarrow> Inl e
                      | Inr null_count \<Rightarrow>
                          (case (if null_count > 0
                                 then GetBatchSpaced dec num_values null_count
                                        (defined result_col) offsets0 0
                                 else GetBatch dec offsets0 0 num_values) of
                             Inl e \<Rightarrow> Inl e
                           | Inr (values_read, offsets, dec') \<Rightarrow> Inr (offsets, cs1))))
              else Inr (replicate (unat num_values) 0, cs1))))"

definition scan_data_page_dict :: "(nat \<Rightarrow> uint32_t) \<Rightarrow> ColumnScan \<Rightarrow> ResultColumn
    \<Rightarrow> error + (ColumnScan \<times> ResultColumn)" where
  "scan_data_page_dict fresh cs result_col =
     (if \<not> seen_dict cs then Inl (Runtime_error ''Missing dictionary page'')
      else
        (case decode_offsets fresh cs result_col of
           Inl e \<Rightarrow> Inl e
         | Inr (offsets, cs1) \<Rightarrow>
             (let n = loop_bound (dph_num_values (data_page_header (page_header cs1)));
                  numeric = (\<lambda>sz. and_then (fill_values_dict sz offsets cs1 result_col)
                                      (\<lambda>c. Inr (cs1, c)))
              in case col_type (col result_col) of
                   INT32 \<Rightarrow> numeric 4
                 | INT64 \<Rightarrow> numeric 8
                 | INT96 \<Rightarrow> numeric 12
                 | FLOAT \<Rightarrow> numeric 4
                 | DOUBLE \<Rightarrow> numeric 8
                 | BYTE_ARRAY \<Rightarrow>
                     and_then (dict_offsets_loop n 0 offsets cs1 result_col) (\<lambda>c. Inr (cs1, c))
                 | _ \<Rightarrow> Inl (Runtime_error ''Unsupported type page_dict''))))"

subsection \<open>Data pages: definition levels and dispatch\<close>

definition scan_data_page :: "(nat \<Rightarrow> uint32_t) \<Rightarrow> ColumnScan \<Rightarrow> ResultColumn
    \<Rightarrow> error + (ColumnScan \<times> ResultColumn)" where
  "scan_data_page fresh cs result_col =
     (let ph = page_header cs in
      if \<not> isset_data_page_header ph \<or> isset_dictionary_page_header ph
      then Inl (Runtime_error ''Data page header mismatch'')
      else if isset_data_page_header_v2 ph
      then Inl (Runtime_error ''Data page v2 unsupported'')
      else
        (let num_values = dph_num_values (data_page_header ph) in
         case (case definition_level_encoding (data_page_header ph) of
                 RLE \<Rightarrow>
                   (case load_le32 (page_buf cs) (page_buf_ptr cs) of
                      Inl e \<Rightarrow> Inl e
                    | Inr def_length \<Rightarrow>
                        (let p = page_buf_ptr cs + 4 in
                         case RleBpDecoder_new (page_buf cs) p def_length 1 of
                           Inl e \<Rightarrow> Inl e
                         | Inr dec \<Rightarrow>
                             (case GetBatch dec (defined result_col) 0 num_values of
                                Inl e \<Rightarrow> Inl e
                              | Inr (values_read, defined', dec') \<Rightarrow>
                                  Inr (cs\<lparr>page_buf_ptr := p + unat def_length\<rparr>,
                                       result_col\<lparr>defined := defined'\<rparr>))))
               | _ \<Rightarrow> Inl (Runtime_error ''Definition levels have unsupported/invalid encoding'')) of
           Inl e \<Rightarrow> Inl e
         | Inr (cs1, col1) \<Rightarrow>
             (case (case dph_encoding (data_page_header ph) of
                      RLE_DICTIONARY \<Rightarrow> scan_data_page_dict fresh cs1 col1
                    | PLAIN_DICTIONARY \<Rightarrow> scan_data_page_dict fresh cs1 col1
                    | PLAIN \<Rightarrow> scan_data_page_plain cs1 col1
                    | _ \<Rightarrow> Inl (Runtime_error ''Data page has unsupported/invalid encoding'')) of
                Inl e \<Rightarrow> Inl e
              | Inr (cs2, col2) \<Rightarrow>
                  Inr (cs2\<lparr>page_start_row := page_start_row cs2 + scast num_values\<rparr>, col2))))"

section \<open>The column scanner and the file reader (class ParquetFile)\<close>

record ColumnMetaData =
  codec :: CompressionCodec
  total_compressed_size :: int64_t
  data_page_offset :: int64_t
  isset_dictionary_page_offset :: bool
  dictionary_page_offset :: int64_t
  path_in_schema :: "string list"

record ColumnChunk =
  isset_file_path :: bool
  meta_data :: ColumnMetaData

record RowGroup =
  columns :: "ColumnChunk list"
  num_rows :: int64_t

record FileMetaData =
  row_groups :: "RowGroup list"

text \<open>
  \<open>ParquetFile\<close>: \<open>pfile\<close> is the contents of the opened file, \<open>pf_columns\<close> the member
  \<open>columns\<close>.  The stream is taken to be in its good state when a scan starts.
\<close>

record ParquetFile =
  pfile :: "byte list"
  file_meta_data :: FileMetaData
  pf_columns :: "ParquetColumn list"

record ScanState =
  row_group_idx :: uint64_t

record ResultChunk =
  cols :: "ResultColumn list"
  nrows :: uint64_t

text \<open>
  What the code calls but does not contain is a parameter of the model: the Thrift
  deserialiser of a page header, which answers the header and the number of bytes it
  consumed (or throws); the two Snappy functions; and the contents of newly allocated,
  not yet written memory.
\<close>

record externals =
  thrift_unpack :: "byte list \<Rightarrow> error + (PageHeader \<times> nat)"
  snappy_GetUncompressedLength :: "byte list \<Rightarrow> nat option"
  snappy_RawUncompress :: "byte list \<Rightarrow> byte list option"
  fresh :: "nat \<Rightarrow> uint32_t"

text \<open>
  Modelled from the spec: \<open>ByteBuffer::resize\<close> is declared in \<open>miniparquet.h\<close>, which is
  not among the sources.  The specification has each buffer re-initialised to the size
  asked for; with \<open>copy = false\<close> the contents are unspecified (the model keeps what fits
  and fills the rest with zero bytes).
\<close>

definition ByteBuffer_resize :: "nat \<Rightarrow> bool \<Rightarrow> byte list \<Rightarrow> byte list" where
  "ByteBuffer_resize new_size copy buf = take new_size buf @ replicate (new_size - length buf) 0"

text \<open>
  \<open>chunk_start\<close> of \<open>scan_column\<close>; the offsets are signed 64-bit numbers.
\<close>

definition chunk_start :: "ColumnMetaData \<Rightarrow> int64_t" where
  "chunk_start md =
     (if isset_dictionary_page_offset md \<and> sint (dictionary_page_offset md) \<ge> 4
      then dictionary_page_offset md
      else data_page_offset md)"

text \<open>
  Reading the chunk: \<open>seekg(chunk_start)\<close>, a buffer of \<open>chunk_len + 128\<close> bytes, and
  \<open>read\<close> of \<open>chunk_len\<close> bytes, which fails unless the file has them all.  The 128
  trailing bytes are never written (zero bytes in the model).  A negative \<open>chunk_len\<close>
  makes the allocation or the read fail.
\<close>

definition read_chunk :: "byte list \<Rightarrow> int64_t \<Rightarrow> int64_t \<Rightarrow> error + byte list" where
  "read_chunk file start chunk_len =
     (if sint chunk_len + 128 < 0 then Inl (Runtime_error ''std::bad_alloc'')
      else if sint start < 0 \<or> sint chunk_len < 0
              \<or> nat (sint start) + nat (sint chunk_len) > length file
      then Inl (Runtime_error ''Could not read chunk. File corrupt?'')
      else Inr (take (nat (sint chunk_len)) (drop (nat (sint start)) file) @ replicate 128 0))"

definition ColumnScan_new :: ColumnScan where
  "ColumnScan_new =
     \<lparr> page_header =
         \<lparr> page_type = DATA_PAGE, uncompressed_page_size = 0, compressed_page_size = 0,
           isset_data_page_header = False, isset_dictionary_page_header = False,
           isset_data_page_header_v2 = False,
           data_page_header = \<lparr> dph_num_values = 0, dph_encoding = PLAIN,
                                definition_level_encoding = PLAIN \<rparr>,
           dictionary_page_header = \<lparr> dict_num_values = 0, dict_encoding = PLAIN \<rparr> \<rparr>,
       seen_dict = False, page_buf = [], page_buf_ptr = 0, page_buf_end_ptr = 0,
       dict = None, dict_size = 0, page_buf_len = 0, page_start_row = 0, type_len = 0 \<rparr>"

text \<open>
  One iteration of the page loop of \<open>scan_column\<close>.  \<open>region\<close> and \<open>ptr\<close> are
  \<open>chunk_buf.ptr\<close>; \<open>ptr\<close> is an integer because a negative \<open>compressed_page_size\<close> moves
  it backwards.  \<open>thrift_unpack\<close> gets the low 32 bits of \<open>page_header_len\<close> as the
  buffer length and overwrites them with the number of bytes consumed.
\<close>

definition scan_page :: "externals \<Rightarrow> CompressionCodec \<Rightarrow> byte list \<Rightarrow> int \<Rightarrow> int64_t
    \<Rightarrow> ColumnScan \<Rightarrow> ResultColumn \<Rightarrow> error + (int \<times> int64_t \<times> ColumnScan \<times> ResultColumn)" where
  "scan_page ext cdc region ptr bytes_to_read cs result_col =
     (if ptr < 0 \<or> nat ptr > length region then Inl Undefined_behaviour
      else
        (case thrift_unpack ext (take (unat (ucast bytes_to_read :: 32 word)) (drop (nat ptr) region)) of
           Inl e \<Rightarrow> Inl e
         | Inr (ph, consumed) \<Rightarrow>
             (let page_header_len = (bytes_to_read AND NOT 0xFFFFFFFF) OR ucast (word_of_nat consumed :: 32 word);
                  ptr1 = ptr + sint page_header_len;
                  bytes_to_read1 = bytes_to_read - page_header_len;
                  payload_end_ptr = ptr1 + sint (compressed_page_size ph)
              in
              case (case cdc of
                      UNCOMPRESSED \<Rightarrow>
                        if ptr1 < 0 then Inl Undefined_behaviour
                        else Inr (region, nat ptr1, scast (compressed_page_size ph) :: 64 word)
                    | SNAPPY \<Rightarrow>
                        if ptr1 < 0 \<or> sint (compressed_page_size ph) < 0
                           \<or> nat ptr1 + nat (sint (compressed_page_size ph)) > length region
                        then Inl Undefined_behaviour
                        else
                          (let compressed = take (nat (sint (compressed_page_size ph)))
                                              (drop (nat ptr1) region) in
                           case snappy_GetUncompressedLength ext compressed of
                             None \<Rightarrow> Inl Undefined_behaviour
                           | Some decompressed_size \<Rightarrow>
                               (case snappy_RawUncompress ext compressed of
                                  None \<Rightarrow> Inl (Runtime_error ''Decompression failure'')
                                | Some out \<Rightarrow>
                                    Inr (ByteBuffer_resize (decompressed_size + 128) True out, 0,
                                         scast (uncompressed_page_size ph))))
                    | _ \<Rightarrow> Inl (Runtime_error
                              ''Unsupported compression codec. Try uncompressed or snappy'')) of
                Inl e \<Rightarrow> Inl e
              | Inr (buf, buf_ptr, buf_len) \<Rightarrow>
                  (let cs1 = cs\<lparr>page_header := ph, page_buf := buf, page_buf_ptr := buf_ptr,
                                 page_buf_len := buf_len,
                                 page_buf_end_ptr := int buf_ptr + sint buf_len\<rparr>
                   in
                   case (case page_type ph of
                           DICTIONARY_PAGE \<Rightarrow> scan_dict_page cs1 result_col
                         | DATA_PAGE \<Rightarrow> scan_data_page (fresh ext) cs1 result_col
                         | DATA_PAGE_V2 \<Rightarrow>
                             Inl (Runtime_error ''v2 data page format is not supported'')
                         | _ \<Rightarrow> Inr (cs1, result_col)) of
                     Inl e \<Rightarrow> Inl e
                   | Inr (cs2, col2) \<Rightarrow>
                       Inr (payload_end_ptr,
                            bytes_to_read1 - scast (compressed_page_size ph), cs2, col2)))))"

text \<open>
  The page loop, \<open>while (bytes_to_read > 0)\<close>.  It need not terminate (a page whose
  negative \<open>compressed_page_size\<close> cancels the length of its header is scanned again and
  again), so it runs on fuel: \<open>None\<close> means that the fuel did not suffice.
\<close>

fun scan_pages :: "externals \<Rightarrow> CompressionCodec \<Rightarrow> byte list \<Rightarrow> nat \<Rightarrow> int \<Rightarrow> int64_t
    \<Rightarrow> ColumnScan \<Rightarrow> ResultColumn \<Rightarrow> (error + ResultColumn) option" where
  "scan_pages ext cdc region fuel ptr bytes_to_read cs result_col =
     (if sint bytes_to_read > 0 then
        (case fuel of
           0 \<Rightarrow> None
         | Suc fuel' \<Rightarrow>
             (case scan_page ext cdc region ptr bytes_to_read cs result_col of
                Inl e \<Rightarrow> Some (Inl e)
              | Inr (ptr', bytes_to_read', cs', col') \<Rightarrow>
                  scan_pages ext cdc region fuel' ptr' bytes_to_read' cs' col'))
      else Some (Inr result_col))"

declare scan_pages.simps [simp del]

definition scan_column :: "externals \<Rightarrow> nat \<Rightarrow> ParquetFile \<Rightarrow> ScanState \<Rightarrow> ResultColumn
    \<Rightarrow> (error + ResultColumn) option" where
  "scan_column ext fuel pf state result_col =
     (let rgs = row_groups (file_meta_data pf) in
      if \<not> unat (row_group_idx state) < length rgs then Some (Inl Undefined_behaviour)
      else
        (let row_group = rgs ! unat (row_group_idx state) in
         if \<not> result_col_id result_col < length (columns row_group) then Some (Inl Undefined_behaviour)
         else
           (let chunk = columns row_group ! result_col_id result_col in
            if isset_file_path chunk
            then Some (Inl (Runtime_error ''Only inlined data files are supported (no references)''))
            else if length (path_in_schema (meta_data chunk)) \<noteq> 1
            then Some (Inl (Runtime_error ''Only flat tables are supported (no nesting)''))
            else
              (let chunk_len = total_compressed_size (meta_data chunk) in
               case read_chunk (pfile pf) (chunk_start (meta_data chunk)) chunk_len of
                 Inl e \<Rightarrow> Some (Inl e)
               | Inr chunk_buf \<Rightarrow>
                   (let cs = (if col_type (col result_col) = FIXED_LEN_BYTE_ARRAY
                              then ColumnScan_new\<lparr>type_len :=
                                     type_length (schema_element (col result_col))\<rparr>
                              else ColumnScan_new)
                    in scan_pages ext (codec (meta_data chunk)) chunk_buf fuel 0 chunk_len
                         cs result_col)))))"

text \<open>
  \<open>initialize_column\<close>; \<open>n_rows\<close> is its parameter \<open>num_rows\<close>.  The byte size of \<open>data\<close>
  is computed in 64-bit unsigned arithmetic; \<open>memset\<close> writes \<open>num_rows\<close> zero bytes into
  \<open>defined\<close>.
\<close>

definition initialize_column :: "ParquetFile \<Rightarrow> ResultColumn \<Rightarrow> uint64_t \<Rightarrow> error + ResultColumn" where
  "initialize_column pf c n_rows =
     (case store_range (ByteBuffer_resize (unat n_rows) False (defined c)) 0
             (replicate (unat n_rows) 0) of
        Inl e \<Rightarrow> Inl e
      | Inr defined' \<Rightarrow>
          (let c1 = c\<lparr>defined := defined'\<rparr>;
               sized = (\<lambda>sz :: 64 word.
                          c1\<lparr>data := ByteBuffer_resize (unat (sz * n_rows)) False (data c1)\<rparr>)
           in case col_type (col c) of
                BOOLEAN \<Rightarrow> Inr (sized 1)
              | INT32 \<Rightarrow> Inr (sized 4)
              | INT64 \<Rightarrow> Inr (sized 8)
              | INT96 \<Rightarrow> Inr (sized 12)
              | FLOAT \<Rightarrow> Inr (sized 4)
              | DOUBLE \<Rightarrow> Inr (sized 8)
              | BYTE_ARRAY \<Rightarrow> Inr ((sized 8)\<lparr>string_heap := []\<rparr>)
              | FIXED_LEN_BYTE_ARRAY \<Rightarrow>
                  if \<not> result_col_id c < length (pf_columns pf) then Inl Undefined_behaviour
                  else
                    (let s_ele = schema_element (pf_columns pf ! result_col_id c) in
                     if \<not> isset_type_length s_ele
                     then Inl (Runtime_error ''need a type length for fixed byte array'')
                     else Inr ((sized (scast (type_length s_ele)))\<lparr>string_heap := []\<rparr>))
              | _ \<Rightarrow> Inl (Runtime_error ''Unsupported type'')))"

text \<open>The loop of \<open>scan\<close> over the columns of the chunk.\<close>

fun scan_cols :: "externals \<Rightarrow> nat \<Rightarrow> ParquetFile \<Rightarrow> ScanState \<Rightarrow> uint64_t \<Rightarrow> ResultColumn list
    \<Rightarrow> (error + ResultColumn list) option" where
  "scan_cols ext fuel pf s n [] = Some (Inr [])"
| "scan_cols ext fuel pf s n (result_col # rest) =
     (case initialize_column pf result_col n of
        Inl e \<Rightarrow> Some (Inl e)
      | Inr c1 \<Rightarrow>
          (case scan_column ext fuel pf s c1 of
             None \<Rightarrow> None
           | Some (Inl e) \<Rightarrow> Some (Inl e)
           | Some (Inr c2) \<Rightarrow>
               (case scan_cols ext fuel pf s n rest of
                  None \<Rightarrow> None
                | Some (Inl e) \<Rightarrow> Some (Inl e)
                | Some (Inr rest') \<Rightarrow> Some (Inr (c2 # rest')))))"

definition scan :: "externals \<Rightarrow> nat \<Rightarrow> ParquetFile \<Rightarrow> ScanState \<Rightarrow> ResultChunk
    \<Rightarrow> (error + (bool \<times> ScanState \<times> ResultChunk)) option" where
  "scan ext fuel pf s result =
     (if unat (row_group_idx s) \<ge> length (row_groups (file_meta_data pf))
      then Some (Inr (False, s, result\<lparr>nrows := 0\<rparr>))
      else
        (let row_group = row_groups (file_meta_data pf) ! unat (row_group_idx s) in
         case scan_cols ext fuel pf s (num_rows row_group) (cols result) of
           None \<Rightarrow> None
         | Some (Inl e) \<Rightarrow> Some (Inl e)
         | Some (Inr cols') \<Rightarrow>
             Some (Inr (True, s\<lparr>row_group_idx := row_group_idx s + 1\<rparr>,
                        result\<lparr>nrows := num_rows row_group, cols := cols'\<rparr>))))"

section \<open>Properties of the decoder\<close>

subsection \<open>Construction\<close>

lemma shl_int_1: "shl_int 1 n = (if n < 32 then Inr (2 ^ n) else Inl Undefined_behaviour)"
proof -
  have "(2::int) ^ n < 2 ^ 32 \<longleftrightarrow> n < 32"
    by (rule power_strict_increasing_iff) simp
  then show ?thesis by (simp add: shl_int_def)
qed


lemma sint_2p:
  assumes "n < 31"
  shows "sint (2 ^ n :: 32 word) = 2 ^ n"
proof -
  have lt: "(2::int) ^ n < 2 ^ 31"
    using assms by (simp only: power_strict_increasing_iff)
  have "(2 ^ n :: 32 word) = word_of_int (2 ^ n)"
    by simp
  then have "uint (2 ^ n :: 32 word) = take_bit 32 (2 ^ n :: int)"
    by (simp only: uint_word_of_int_eq) simp
  also have "\<dots> = 2 ^ n"
    using assms by (simp add: take_bit_int_eq_self)
  finally have "uint (2 ^ n :: 32 word) = 2 ^ n" .
  then have "sint (2 ^ n :: 32 word) = signed_take_bit 31 (2 ^ n :: int)"
    by (simp add: sint_uint)
  also have "\<dots> = 2 ^ n"
  proof (rule signed_take_bit_int_eq_self)
    show "- (2 ^ 31) \<le> (2::int) ^ n"
      by (rule order_trans [where y = 0]) simp_all
    show "(2::int) ^ n < 2 ^ 31" by (rule lt)
  qed
  finally show ?thesis .
qed

lemma sub_int_2p:
  assumes "n < 32"
  shows "sub_int (2 ^ n) 1 = (if n < 31 then Inr (2 ^ n - 1) else Inl Undefined_behaviour)"
proof (cases "n < 31")
  case True
  then have s: "sint (2 ^ n :: 32 word) = 2 ^ n" by (rule sint_2p)
  have "(2::int) ^ n < 2 ^ 31" using True by (simp only: power_strict_increasing_iff)
  moreover have "(0::int) < 2 ^ n" by simp
  ultimately have "- (2 ^ 31) \<le> (2::int) ^ n - 1 \<and> (2::int) ^ n - 1 < 2 ^ 31"
    by linarith
  with True s show ?thesis by (simp add: sub_int_def)
next
  case False
  with assms have "n = 31" by simp
  then show ?thesis by (simp add: sub_int_def)
qed

text \<open>
  The three outcomes of the constructor: it throws for widths of 64 and more, it runs
  into undefined behaviour for the widths 31 to 63 (\<open>1 << 31\<close> is \<open>INT_MIN\<close>, from which 1
  cannot be subtracted; \<open>1 << 32\<close> and beyond are no shifts of an \<open>int\<close>), and it succeeds
  for the widths 0 to 30.
\<close>

lemma RleBpDecoder_new_cases:
  "RleBpDecoder_new m p len w =
     (if 64 \<le> w then Inl (Runtime_error ''Decode bit width too large'')
      else if 31 \<le> unat w then Inl Undefined_behaviour
      else Inr \<lparr> mem = m, buffer = p, buffer_len = len, bit_width = unat w,
                 current_value = 0, repeat_count = 0, literal_count = 0,
                 byte_encoded_len = ucast ((w + 7) div 8),
                 max_val = 2 ^ unat w - 1 \<rparr>)"
  by (simp add: RleBpDecoder_new_def and_then_def shl_int_1 sub_int_2p)

lemma RleBpDecoder_new_throws_iff:
  "(\<exists>msg. RleBpDecoder_new m p len w = Inl (Runtime_error msg)) \<longleftrightarrow> 64 \<le> w"
  by (simp add: RleBpDecoder_new_cases)

lemma RleBpDecoder_new_succeeds_iff:
  "(\<exists>d. RleBpDecoder_new m p len w = Inr d) \<longleftrightarrow> unat w < 31"
  by (auto simp: RleBpDecoder_new_cases word_le_nat_alt)

lemma RleBpDecoder_new_byte_encoded_len:
  assumes "RleBpDecoder_new m p len w = Inr d"
  shows "unat (byte_encoded_len d) = (unat w + 7) div 8"
proof -
  have w: "unat w < 64"
    using assms by (auto simp: RleBpDecoder_new_cases word_le_nat_alt split: if_splits)
  then have "unat (w + 7) = unat w + 7"
    by (simp add: unat_add_lem [THEN iffD1])
  then have "unat ((w + 7) div 8) = (unat w + 7) div 8"
    by (simp add: unat_div)
  moreover have "(unat w + 7) div 8 < 256"
    using w by simp
  ultimately have "unat (ucast ((w + 7) div 8) :: 8 word) = (unat w + 7) div 8"
    by (simp add: unsigned_ucast_eq take_bit_eq_mod)
  with assms show ?thesis
    by (auto simp: RleBpDecoder_new_cases split: if_splits)
qed

lemma unat_2p_minus_1:
  assumes n: "n < 32"
  shows "unat (2 ^ n - 1 :: 32 word) = 2 ^ n - 1"
proof -
  have e: "2 ^ n - 1 = (mask n :: 32 word)"
    by (simp add: mask_eq_exp_minus_1)
  have "uint (mask n :: 32 word) = mask n"
    using n by (simp add: uint_mask_eq min_def)
  then have "uint (mask n :: 32 word) = 2 ^ n - 1"
    by (simp only: mask_eq_exp_minus_1 [where ?'a = int])
  then have "unat (mask n :: 32 word) = nat (2 ^ n - 1)"
    by (simp only: unat_eq_nat_uint)
  also have "\<dots> = 2 ^ n - 1"
    by (simp add: nat_diff_distrib nat_power_eq)
  finally show ?thesis by (simp only: e)
qed

lemma RleBpDecoder_new_max_val:
  assumes "RleBpDecoder_new m p len w = Inr d"
  shows "unat (max_val d) = 2 ^ unat w - 1"
proof -
  from assms have w: "unat w < 31" and "max_val d = 2 ^ unat w - 1"
    by (auto simp: RleBpDecoder_new_cases split: if_splits)
  then show ?thesis
    by (simp only: unat_2p_minus_1)
qed

text \<open>The field \<open>max_val\<close> is a \<open>uint32_t\<close>: whatever is stored in it stays below \<open>2^32\<close>.\<close>

lemma max_val_below_2_32: "unat (max_val d) < 2 ^ 32"
  using unsigned_less [of "max_val d"] by simp

text \<open>
  C5.  The claim: construction fails if and only if the width is 64 or more, and on
  success \<open>byte_encoded_len = ceil(w/8)\<close> and \<open>max_val = 2^w - 1\<close> for every accepted width
  \<open>0 \<le> w < 64\<close>, in exact arithmetic.  The constructor throws exactly for the widths of
  64 and more (\<open>RleBpDecoder_new_throws_iff\<close>), and where it succeeds the two constants
  are as claimed (\<open>RleBpDecoder_new_byte_encoded_len\<close>, \<open>RleBpDecoder_new_max_val\<close>).  But it
  succeeds only up to width 30 (\<open>RleBpDecoder_new_succeeds_iff\<close>).  The widths 32 and 40
  pass the check of the constructor, which then shifts the \<open>int\<close> 1 by 32 or by 40 bits:
  the result of the construction is undefined.  Whatever such a shift produces, the
  32-bit field \<open>max_val\<close> cannot hold \<open>2^40 - 1\<close>.
\<close>

theorem RleBpDecoder_new_width_40:
  "RleBpDecoder_new m p len 32 = Inl Undefined_behaviour
   \<and> RleBpDecoder_new m p len 40 = Inl Undefined_behaviour
   \<and> (\<forall>d :: RleBpDecoder. unat (max_val d) < 2 ^ 40 - 1)"
proof -
  have "unat (max_val d) < 2 ^ 40 - 1" for d :: RleBpDecoder
    using max_val_below_2_32 [of d] by simp
  then show ?thesis
    by (simp add: RleBpDecoder_new_def and_then_def shl_int_def)
qed

subsection \<open>Run indicators\<close>

text \<open>
  The reading of the specification: the repeated value is the little-endian number
  formed by the \<open>byte_encoded_len\<close> bytes, zero-extended to 64 bits.
\<close>

definition spec_le_value :: "byte list \<Rightarrow> uint64_t" where
  "spec_le_value bs = horner_sum ucast 256 bs"

lemma NextCounts_literal:
  assumes "VarintDecode (mem d) (buffer d) = Inr (v, len)" and "v AND 1 \<noteq> 0"
  shows "NextCounts d = Inr (True, d\<lparr>buffer := buffer d + len, literal_count := drop_bit 1 v * 8\<rparr>)"
  using assms by (simp add: NextCounts_def)

lemma NextCounts_repeated:
  assumes "VarintDecode (mem d) (buffer d) = Inr (v, len)" and "v AND 1 = 0"
    and "read_current_value (mem d) (buffer d + len) 0 (unat (byte_encoded_len d)) 0 = Inr (cv, p)"
  shows "NextCounts d =
           (if cv > ucast (max_val d)
            then Inl (Runtime_error ''Payload value bigger than allowed. Corrupted file?'')
            else Inr (True, d\<lparr>buffer := p, repeat_count := drop_bit 1 v, current_value := cv\<rparr>))"
  using assms by (simp add: NextCounts_def)

text \<open>
  A repeated value of five or more bytes is never read: the fifth byte is shifted by
  32 bits as an \<open>int\<close>.
\<close>

lemma shl_int_error: "shl_int a n = Inl e \<Longrightarrow> e = Undefined_behaviour"
  by (auto simp: shl_int_def split: if_splits)

lemma load8_error: "load8 m p = Inl e \<Longrightarrow> e = Undefined_behaviour"
  by (auto simp: load8_def split: if_splits)

lemma read_current_value_fifth_byte:
  assumes "i \<le> 4" and "4 < n"
  shows "read_current_value m p i n cv = Inl Undefined_behaviour"
  using assms
proof (induction "4 - i" arbitrary: i p cv)
  case 0
  then have i: "i = 4" by simp
  have "shl_int a 32 = Inl Undefined_behaviour" for a
    by (simp add: shl_int_def)
  with i "0.prems" show ?case
    by (subst read_current_value.simps) (auto split: sum.splits dest: load8_error)
next
  case (Suc k)
  then have "k = 4 - (i + 1)" and "i + 1 \<le> 4" and "i < n" by simp_all
  with Suc.hyps(1) Suc.prems(2)
  have "read_current_value m (p + 1) (i + 1) n cv' = Inl Undefined_behaviour" for cv'
    by simp
  with \<open>i < n\<close> show ?case
    by (subst read_current_value.simps) (auto split: sum.splits dest: load8_error shl_int_error)
qed

lemma NextCounts_wide_value:
  assumes "VarintDecode (mem d) (buffer d) = Inr (v, len)" and "v AND 1 = 0"
    and "4 < unat (byte_encoded_len d)"
  shows "NextCounts d = Inl Undefined_behaviour"
  using assms by (simp add: NextCounts_def read_current_value_fifth_byte)

text \<open>
  C4.  The claim: a run indicator \<open>v\<close> with \<open>v & 1 = 1\<close> sets
  \<open>literal_count = (v >> 1) * 8\<close>; one with \<open>v & 1 = 0\<close> sets \<open>repeat_count = v >> 1\<close> and
  reads the repeated value as \<open>byte_encoded_len\<close> little-endian bytes zero-extended to 64
  bits, failing whenever that value exceeds \<open>max_val\<close>.  The counts are as claimed
  (\<open>NextCounts_literal\<close>, \<open>NextCounts_repeated\<close>), the value is not: every byte is shifted
  as a 32-bit \<open>int\<close> before it reaches the 64-bit \<open>current_value_\<close>.  In a decoder of width
  40, which the constructor does not refuse and for which it sets \<open>byte_encoded_len = 5\<close>
  before it computes \<open>max_val\<close>, the run \<open>02 00 00 00 00 01\<close> (repeat once the five-byte
  value \<open>2^32\<close>) makes \<open>NextCounts\<close> shift the byte \<open>01\<close> by 32 bits: whatever \<open>max_val\<close> is,
  the outcome is undefined, where the claimed value is \<open>2^32\<close>.
\<close>

theorem NextCounts_width_40:
  "NextCounts \<lparr> mem = [2, 0, 0, 0, 0, 1], buffer = 0, buffer_len = 6, bit_width = 40,
                current_value = 0, repeat_count = 0, literal_count = 0,
                byte_encoded_len = 5, max_val = mv \<rparr> = Inl Undefined_behaviour
   \<and> spec_le_value [0, 0, 0, 0, 1] = 2 ^ 32"
  by (simp add: NextCounts_def VarintDecode_def VarintDecode_loop.simps
        read_current_value.simps shl_int_def load8_def Let_def spec_le_value_def)

text \<open>
  With four bytes no shift count reaches 32, but a fourth byte of \<open>0x80\<close> and more
  sets bit 31 of the \<open>int\<close>, and the conversion to 64 bits extends the sign.
\<close>

lemma read_current_value_sign_extension:
  "read_current_value [0, 0, 0, 0x80] 0 0 4 0 = Inr (0xFFFFFFFF80000000, 4)
   \<and> spec_le_value [0, 0, 0, 0x80] = 0x80000000"
  by (simp add: read_current_value.simps shl_int_def load8_def spec_le_value_def)

subsection \<open>Batches\<close>

text \<open>
  C3.  The claim: when both run counters are zero and the input slice is exhausted,
  \<open>GetBatch\<close> returns the count decoded so far instead of reading past the slice.
  \<open>NextCounts\<close> never looks at \<open>buffer_len\<close> and always answers \<open>true\<close>.  A decoder over
  an empty slice (\<open>buffer_len = 0\<close>) that is followed in memory by the bytes \<open>02 01\<close>
  reads them as a run and returns one value, not the partial count 0.
\<close>

theorem GetBatch_reads_past_slice:
  "and_then (RleBpDecoder_new [2, 1] 0 0 1) (\<lambda>d. GetBatch d [0 :: 8 word] 0 1) =
     Inr (1, [1], \<lparr> mem = [2, 1], buffer = 2, buffer_len = 0, bit_width = 1,
                     current_value = 1, repeat_count = 0, literal_count = 0,
                     byte_encoded_len = 1, max_val = 1 \<rparr>)"
  by (simp add: and_then_def RleBpDecoder_new_def shl_int_def sub_int_def GetBatch_def GetBatch_loop.simps
        NextCounts_def VarintDecode_def VarintDecode_loop.simps read_current_value.simps
        load8_def Let_def store_range_def word_le_nat_alt word_less_nat_alt)

text \<open>
  C7.  The claim: with \<open>null_count = 0\<close> and a mask of \<open>n\<close> ones, \<open>GetBatchSpaced\<close> writes
  the same values to the same indices as \<open>GetBatch\<close> and leaves the decoder in the same
  state.  \<open>GetBatchSpaced\<close> takes one mask entry per loop iteration, also in an
  iteration that only reads the indicator of an empty run.  On the stream
  \<open>00 00 02 01\<close> (an empty run, then the value 1 once) at width 1 and \<open>n = 1\<close>,
  \<open>GetBatch\<close> writes the value 1, while \<open>GetBatchSpaced\<close> reads the mask at index 1,
  beyond its single entry; if a zero byte follows the mask there, it returns with the
  slot unwritten and the second run unread.
\<close>

theorem GetBatchSpaced_empty_run:
  "and_then (RleBpDecoder_new [0, 0, 2, 1] 0 4 1) (\<lambda>d. GetBatch d [7 :: 8 word] 0 1) =
     Inr (1, [1], \<lparr> mem = [0, 0, 2, 1], buffer = 4, buffer_len = 4, bit_width = 1,
                     current_value = 1, repeat_count = 0, literal_count = 0,
                     byte_encoded_len = 1, max_val = 1 \<rparr>)
   \<and> and_then (RleBpDecoder_new [0, 0, 2, 1] 0 4 1)
        (\<lambda>d. GetBatchSpaced d 1 0 [1] [7 :: 8 word] 0) = Inl Undefined_behaviour
   \<and> and_then (RleBpDecoder_new [0, 0, 2, 1] 0 4 1)
        (\<lambda>d. GetBatchSpaced d 1 0 [1, 0] [7 :: 8 word] 0) =
     Inr (1, [7], \<lparr> mem = [0, 0, 2, 1], buffer = 2, buffer_len = 4, bit_width = 1,
                     current_value = 0, repeat_count = 0, literal_count = 0,
                     byte_encoded_len = 1, max_val = 1 \<rparr>)"
  by (simp add: and_then_def RleBpDecoder_new_def shl_int_def sub_int_def GetBatch_def GetBatch_loop.simps
        GetBatchSpaced_def GetBatchSpaced_loop.simps
        NextCounts_def VarintDecode_def VarintDecode_loop.simps read_current_value.simps
        load8_def Let_def store_range_def word_le_nat_alt word_less_nat_alt)

text \<open>Neither batch operation changes the size of the destination array.\<close>

lemma store_range_length: "store_range xs off vs = Inr ys \<Longrightarrow> length ys = length xs"
  by (auto simp: store_range_def split: if_splits)

lemma GetBatch_loop_length:
  "GetBatch_loop d vs off bs vr = Inr (r, vs', d') \<Longrightarrow> length vs' = length vs"
proof (induction d vs off bs vr rule: GetBatch_loop.induct)
  case (1 d vs off bs vr)
  show ?case
  proof (cases "vr < bs")
    case False
    with "1.prems" show ?thesis
      by (subst (asm) GetBatch_loop.simps) simp
  next
    case lt: True
    show ?thesis
    proof (cases "repeat_count d > 0")
      case True
      define rb where "rb = min (bs - vr) (repeat_count d)"
      from "1.prems" lt True have ns: "\<not> sint rb < 0"
        by (subst (asm) GetBatch_loop.simps) (simp add: Let_def rb_def split: if_splits)
      from "1.prems" lt True ns obtain vs1 where
        st: "store_range vs (off + unat vr) (replicate (unat rb) (ucast (current_value d))) = Inr vs1"
        and rec: "GetBatch_loop (d\<lparr>repeat_count := repeat_count d - rb\<rparr>) vs1 off bs (vr + rb)
                    = Inr (r, vs', d')"
        by (subst (asm) GetBatch_loop.simps) (auto simp: Let_def rb_def split: sum.splits)
      from "1.IH"(1) [OF lt True rb_def ns st rec] store_range_length [OF st]
      show ?thesis by simp
    next
      case nr: False
      show ?thesis
      proof (cases "literal_count d > 0")
        case True
        define lb where "lb = min (bs - vr) (literal_count d)"
        from "1.prems" lt nr True obtain xs d1 vs1 where
          bu: "BitUnpack d lb = Inr (xs, d1)"
          and st: "store_range vs (off + unat vr) xs = Inr vs1"
          and rec: "GetBatch_loop (d1\<lparr>literal_count := literal_count d1 - lb\<rparr>) vs1 off bs (vr + lb)
                      = Inr (r, vs', d')"
          by (subst (asm) GetBatch_loop.simps) (auto simp: Let_def lb_def split: sum.splits)
        from "1.IH"(2) [OF lt nr True lb_def bu refl st rec] store_range_length [OF st]
        show ?thesis by simp
      next
        case False
        from "1.prems" lt nr False obtain ok d1 where nc: "NextCounts d = Inr (ok, d1)"
          by (subst (asm) GetBatch_loop.simps) (auto split: sum.splits)
        show ?thesis
        proof (cases ok)
          case True
          with "1.prems" lt nr False nc have rec: "GetBatch_loop d1 vs off bs vr = Inr (r, vs', d')"
            by (subst (asm) GetBatch_loop.simps) simp
          from "1.IH"(3) [OF lt nr False nc refl _ rec] True show ?thesis by simp
        next
          case nok: False
          with "1.prems" lt nr False nc show ?thesis
            by (subst (asm) GetBatch_loop.simps) simp
        qed
      qed
    qed
  qed
qed


lemma GetBatchSpaced_literal_length:
  "GetBatchSpaced_literal dfd indices lb out out_off d_off sk lr = Inr (out', out_off', d_off', sk')
     \<Longrightarrow> length out' = length out"
proof (induction dfd indices lb out out_off d_off sk lr rule: GetBatchSpaced_literal.induct)
  case (1 dfd indices lb out out_off d_off sk lr)
  show ?case
  proof (cases "lr < lb")
    case False
    with "1.prems" show ?thesis
      by (subst (asm) GetBatchSpaced_literal.simps) simp
  next
    case lt: True
    with "1.prems" obtain b where b: "load8 dfd d_off = Inr b"
      by (subst (asm) GetBatchSpaced_literal.simps) (auto split: sum.splits)
    show ?thesis
    proof (cases "b \<noteq> 0")
      case True
      from "1.prems" lt b True have inb: "out_off < length out"
        and rec: "GetBatchSpaced_literal dfd indices lb (out[out_off := indices ! unat lr])
                    (out_off + 1) (d_off + 1) sk (lr + 1) = Inr (out', out_off', d_off', sk')"
        by (subst (asm) GetBatchSpaced_literal.simps, simp split: if_splits)+
      from "1.IH"(1) [OF lt b True inb rec] show ?thesis by simp
    next
      case False
      from "1.prems" lt b False
      have "GetBatchSpaced_literal dfd indices lb out (out_off + 1) (d_off + 1) (sk + 1) lr
              = Inr (out', out_off', d_off', sk')"
        by (subst (asm) GetBatchSpaced_literal.simps) simp
      from "1.IH"(2) [OF lt b False this] show ?thesis .
    qed
  qed
qed

lemma GetBatchSpaced_loop_length:
  fixes out :: "'a::len word list"
  shows "GetBatchSpaced_loop d bs dfd out oo vr rn doff = Inr (r, out', d') \<Longrightarrow> length out' = length out"
proof (induction d bs dfd out oo vr rn doff rule: GetBatchSpaced_loop.induct)
  case (1 d bs dfd out oo vr rn doff)
  show ?case
  proof (cases "vr < bs")
    case False
    with "1.prems" show ?thesis
      by (subst (asm) GetBatchSpaced_loop.simps) simp
  next
    case lt: True
    with "1.prems" obtain b where b: "load8 dfd doff = Inr b"
      by (subst (asm) GetBatchSpaced_loop.simps) (auto split: sum.splits)
    show ?thesis
    proof (cases "b \<noteq> 0")
      case False
      with "1.prems" lt b
      have rec: "GetBatchSpaced_loop d bs dfd out (oo + 1) (vr + 1) (rn - 1) (doff + 1) = Inr (r, out', d')"
        by (subst (asm) GetBatchSpaced_loop.simps) simp
      from "1.IH"(4) [OF lt b False rec] show ?thesis .
    next
      case bn: True
      define nc where "nc = (if repeat_count d = 0 \<and> literal_count d = 0 then NextCounts d
                             else Inr (True, d))"
      from "1.prems" lt b bn obtain ok d1 where ncv: "nc = Inr (ok, d1)"
        by (subst (asm) GetBatchSpaced_loop.simps)
           (auto simp: nc_def [symmetric] split: sum.splits)
      note U = "1.prems" [unfolded GetBatchSpaced_loop.simps [of d bs dfd out oo vr rn doff]]
      from U lt b bn ncv have U1:
        "(if \<not> ok then Inr (vr, out, d1)
          else if repeat_count d1 > 0 then
            (case GetBatchSpaced_repeat dfd bs vr (repeat_count d1 - 1) rn 1 (doff + 1) of
               Inl e \<Rightarrow> Inl e
             | Inr (repeat_cnt, remaining_nulls', repeat_batch, d_off') \<Rightarrow>
                 (case store_range out oo (replicate (unat repeat_batch) (ucast (current_value d1))) of
                    Inl e \<Rightarrow> Inl e
                  | Inr out1 \<Rightarrow>
                      GetBatchSpaced_loop (d1\<lparr>repeat_count := repeat_cnt\<rparr>) bs dfd out1
                        (oo + unat repeat_batch) (vr + repeat_batch) remaining_nulls' d_off'))
          else if literal_count d1 > 0 then
            (let literal_batch0 = min (bs - vr - rn) (literal_count d1) in
             if sint literal_batch0 < 0 then Inl Undefined_behaviour
             else
               (let literal_batch = (if sint literal_batch0 < 1024 then literal_batch0 else 1024) in
                case BitUnpack d1 literal_batch of
                  Inl e \<Rightarrow> Inl e
                | Inr (indices, d2) \<Rightarrow>
                    if literal_batch = 0 \<or> \<not> oo < length out
                    then Inl Undefined_behaviour
                    else
                      (case GetBatchSpaced_literal dfd indices literal_batch
                              (out[oo := indices ! 0]) (oo + 1) (doff + 1) 0 1 of
                         Inl e \<Rightarrow> Inl e
                       | Inr (out1, out_off', d_off', skipped) \<Rightarrow>
                           GetBatchSpaced_loop
                             (d2\<lparr>literal_count := literal_count d2 - literal_batch\<rparr>)
                             bs dfd out1 out_off'
                             (vr + literal_batch + skipped)
                             (rn - skipped) d_off')))
          else GetBatchSpaced_loop d1 bs dfd out oo vr rn (doff + 1)) = Inr (r, out', d')"
        by (simp add: nc_def [symmetric])
      show ?thesis
      proof (cases ok)
        case False
        with U1 show ?thesis by simp
      next
        case ok: True
        then have nnok: "\<not> \<not> ok" by simp
        show ?thesis
        proof (cases "repeat_count d1 > 0")
          case rp: True
          from U1 ok rp obtain rc rn' rb doff' out1 where
            rep: "GetBatchSpaced_repeat dfd bs vr (repeat_count d1 - 1) rn 1 (doff + 1)
                    = Inr (rc, rn', rb, doff')"
            and st: "store_range out oo (replicate (unat rb) (ucast (current_value d1))) = Inr out1"
            and rec: "GetBatchSpaced_loop (d1\<lparr>repeat_count := rc\<rparr>) bs dfd out1
                        (oo + unat rb) (vr + rb) rn' doff' = Inr (r, out', d')"
            by (auto split: sum.splits)
          from "1.IH"(1) [OF lt b bn ncv [unfolded nc_def] refl nnok rp rep refl refl refl st rec]
            store_range_length [OF st]
          show ?thesis by simp
        next
          case nrp: False
          show ?thesis
          proof (cases "literal_count d1 > 0")
            case False
            with U1 ok nrp have rec: "GetBatchSpaced_loop d1 bs dfd out oo vr rn (doff + 1) = Inr (r, out', d')"
              by simp
            from "1.IH"(3) [OF lt b bn ncv [unfolded nc_def] refl nnok nrp False rec]
            show ?thesis .
          next
            case lit: True
            define lb0 where "lb0 = min (bs - vr - rn) (literal_count d1)"
            define lb where "lb = (if sint lb0 < 1024 then lb0 else 1024)"
            from U1 ok nrp lit have ns: "\<not> sint lb0 < 0"
              by (simp add: Let_def lb0_def [symmetric] split: if_splits)
            from U1 ok nrp lit ns obtain indices :: "'a word list" and d2 where
              bu: "BitUnpack d1 lb = Inr (indices, d2)"
              by (auto simp: Let_def lb0_def [symmetric] lb_def [symmetric] split: sum.splits if_splits)
            from U1 ok nrp lit ns bu have g: "\<not> (lb = 0 \<or> \<not> oo < length out)"
              by (auto simp: Let_def lb0_def [symmetric] lb_def [symmetric] split: if_splits)
            from U1 ok nrp lit ns bu g obtain out1 oo1 doff1 sk where
              sc: "GetBatchSpaced_literal dfd indices lb (out[oo := indices ! 0]) (oo + 1) (doff + 1) 0 1
                     = Inr (out1, oo1, doff1, sk)"
              and rec: "GetBatchSpaced_loop (d2\<lparr>literal_count := literal_count d2 - lb\<rparr>) bs dfd out1 oo1
                          (vr + lb + sk) (rn - sk) doff1 = Inr (r, out', d')"
              by (auto simp: Let_def lb0_def [symmetric] lb_def [symmetric] split: sum.splits)
            from "1.IH"(2) [OF lt b bn ncv [unfolded nc_def] refl nnok nrp lit lb0_def ns lb_def
                               bu refl g sc refl refl refl rec]
              GetBatchSpaced_literal_length [OF sc]
            show ?thesis by simp
          qed
        qed
      qed
    qed
  qed
qed


section \<open>Concrete pages and columns\<close>

text \<open>
  Small inputs on which the model is run: a data page header of \<open>n\<close> values with RLE
  definition levels, a dictionary page header, a result column of a given type, and
  the scanner state at the start of a page whose bytes are \<open>buf\<close>.
\<close>

definition example_data_page :: "int32_t \<Rightarrow> Encoding \<Rightarrow> PageHeader" where
  "example_data_page n enc =
     \<lparr> page_type = DATA_PAGE, uncompressed_page_size = 0, compressed_page_size = 0,
       isset_data_page_header = True, isset_dictionary_page_header = False,
       isset_data_page_header_v2 = False,
       data_page_header = \<lparr> dph_num_values = n, dph_encoding = enc,
                            definition_level_encoding = RLE \<rparr>,
       dictionary_page_header = \<lparr> dict_num_values = 0, dict_encoding = PLAIN \<rparr> \<rparr>"

definition example_dictionary_page :: "int32_t \<Rightarrow> PageHeader" where
  "example_dictionary_page n =
     \<lparr> page_type = DICTIONARY_PAGE, uncompressed_page_size = 0, compressed_page_size = 0,
       isset_data_page_header = False, isset_dictionary_page_header = True,
       isset_data_page_header_v2 = False,
       data_page_header = \<lparr> dph_num_values = 0, dph_encoding = PLAIN,
                            definition_level_encoding = PLAIN \<rparr>,
       dictionary_page_header = \<lparr> dict_num_values = n, dict_encoding = PLAIN \<rparr> \<rparr>"

definition example_column :: "Type \<Rightarrow> byte list \<Rightarrow> byte list \<Rightarrow> ResultColumn" where
  "example_column t dat dfd =
     \<lparr> result_col_id = 0, data = dat, defined = dfd, string_heap = [],
       col = \<lparr> col_type = t, schema_element = \<lparr> isset_type_length = False, type_length = 0 \<rparr> \<rparr> \<rparr>"

definition example_scan :: "PageHeader \<Rightarrow> byte list \<Rightarrow> ColumnScan" where
  "example_scan ph buf = ColumnScan_new\<lparr>page_header := ph, page_buf := buf,
      page_buf_len := word_of_nat (length buf), page_buf_end_ptr := int (length buf)\<rparr>"

text \<open>
  Two successive data pages of one column chunk, as the page loop of \<open>scan_column\<close>
  hands them to \<open>scan_data_page\<close>: an \<open>INT32\<close> column of four rows; the first page holds two
  nulls (definition levels \<open>04 00\<close>: the value 0 twice), the second page two values
  (definition levels \<open>04 01\<close>: the value 1 twice) followed by their eight payload bytes.
\<close>

definition two_data_pages :: "error + (ColumnScan \<times> ResultColumn)" where
  "two_data_pages =
     and_then (scan_data_page (\<lambda>_. 0) (example_scan (example_data_page 2 PLAIN) [2, 0, 0, 0, 4, 0])
                 (example_column INT32 (replicate 16 0) (replicate 4 0)))
       (\<lambda>(cs, c). scan_data_page (\<lambda>_. 0)
           (cs\<lparr>page_buf := [2, 0, 0, 0, 4, 1, 0x11, 0x22, 0x33, 0x44, 0x55, 0x66, 0x77, 0x88],
               page_buf_ptr := 0, page_buf_end_ptr := 14\<rparr>) c)"

text \<open>
  A file of one row group of two rows and two \<open>INT32\<close> column chunks, each of one
  uncompressed PLAIN data page behind a page header of one byte: the chunk of column 0
  (bytes 4 to 18) holds two values, the chunk of column 1 (bytes 19 to 25) two nulls.
  Both chunks have a dictionary page offset: 4 for column 0, and 0, which is no offset
  of a page, for column 1.  The page header deserialiser of the example answers a v1
  data page header of two values whose \<open>compressed_page_size\<close> is what follows the
  header byte.
\<close>

definition example_ext :: externals where
  "example_ext =
     \<lparr> thrift_unpack = (\<lambda>bs. Inr ((example_data_page 2 PLAIN)
                                   \<lparr>compressed_page_size := word_of_nat (length bs - 1)\<rparr>, 1)),
       snappy_GetUncompressedLength = (\<lambda>bs. None),
       snappy_RawUncompress = (\<lambda>bs. None),
       fresh = (\<lambda>k. 0) \<rparr>"

definition example_chunk :: "int64_t \<Rightarrow> int64_t \<Rightarrow> int64_t \<Rightarrow> ColumnChunk" where
  "example_chunk dict_off data_off len =
     \<lparr> isset_file_path = False,
       meta_data = \<lparr> codec = UNCOMPRESSED, total_compressed_size = len, data_page_offset = data_off,
                     isset_dictionary_page_offset = True, dictionary_page_offset = dict_off,
                     path_in_schema = [''a''] \<rparr> \<rparr>"

definition example_file :: ParquetFile where
  "example_file =
     \<lparr> pfile = [0x50, 0x41, 0x52, 0x31,
                 0x15, 2, 0, 0, 0, 4, 1, 0x11, 0x22, 0x33, 0x44, 0x55, 0x66, 0x77, 0x88,
                 0x15, 2, 0, 0, 0, 4, 0],
       file_meta_data = \<lparr> row_groups =
         [\<lparr> columns = [example_chunk 4 11 15, example_chunk 0 19 7], num_rows = 2 \<rparr>] \<rparr>,
       pf_columns = [col (example_column INT32 [] []), col (example_column INT32 [] [])] \<rparr>"

definition example_result :: ResultChunk where
  "example_result =
     \<lparr> cols = [example_column INT32 [] [], (example_column INT32 [] [])\<lparr>result_col_id := 1\<rparr>],
       nrows = 0 \<rparr>"

lemma replicate_numeral_unfold: "replicate (numeral k) x = x # replicate (numeral k - 1) x"
  by (simp add: numeral_eq_Suc)

lemma le_bytes_8:
  "le_bytes 8 w = [ucast w, ucast (drop_bit 8 w), ucast (drop_bit 16 w), ucast (drop_bit 24 w),
                   ucast (drop_bit 32 w), ucast (drop_bit 40 w), ucast (drop_bit 48 w),
                   ucast (drop_bit 56 w)]"
proof -
  have "[0..<8] = [0, 1, 2, 3, 4, 5, 6, 7 :: nat]"
    by (simp add: eval_nat_numeral)
  then show ?thesis by (simp add: le_bytes_def)
qed

lemma upt_numeral_unfold: "[i..<numeral n] = (if i < numeral n then i # [Suc i..<numeral n] else [])"
  by (rule upt_rec)

lemmas eval_defs = example_data_page_def example_dictionary_page_def example_column_def example_scan_def
  ColumnScan_new_def and_then_def Let_def load8_def load_range_def load_le32_def store_range_def
  loop_bound_def replicate_numeral_unfold upt_numeral_unfold

section \<open>Properties of the page decoder\<close>

subsection \<open>Slots of the data buffer\<close>

text \<open>
  \<open>slot sz d r\<close> is the slot \<open>r\<close> of the buffer \<open>d\<close> read as an array of \<open>sz\<close>-byte elements,
  the C++ \<open>((T*) data.ptr)[r]\<close>.
\<close>

definition slot :: "nat \<Rightarrow> byte list \<Rightarrow> nat \<Rightarrow> byte list" where
  "slot sz d r = take sz (drop (r * sz) d)"

lemma store_range_nth:
  assumes "store_range xs off vs = Inr ys" and "i < length xs"
  shows "ys ! i = (if off \<le> i \<and> i < off + length vs then vs ! (i - off) else xs ! i)"
proof -
  from assms(1) have le: "off + length vs \<le> length xs"
    and ys: "ys = take off xs @ vs @ drop (off + length vs) xs"
    by (auto simp: store_range_def split: if_splits)
  show ?thesis
    using le assms(2) by (auto simp: ys nth_append min_def)
qed

lemma load_range_eq: "load_range m p n = Inr v \<Longrightarrow> v = take n (drop p m) \<and> length v = n"
  by (auto simp: load_range_def split: if_splits)

lemma slot_disjoint:
  fixes r r' sz i :: nat
  assumes "r' \<noteq> r" and "i < sz"
  shows "\<not> (r * sz \<le> r' * sz + i \<and> r' * sz + i < r * sz + sz)"
proof (cases "r' < r")
  case True
  then have "Suc r' \<le> r" by simp
  then have "Suc r' * sz \<le> r * sz" by (rule mult_le_mono1)
  with assms(2) show ?thesis by simp
next
  case False
  with assms(1) have "Suc r \<le> r'" by simp
  then have "Suc r * sz \<le> r' * sz" by (rule mult_le_mono1)
  then show ?thesis by simp
qed

lemma slot_store_other:
  assumes st: "store_range d (r * sz) v = Inr d'" and len: "length v = sz" and ne: "r' \<noteq> r"
  shows "slot sz d' r' = slot sz d r'"
proof -
  have l: "length d' = length d" using st by (rule store_range_length)
  show ?thesis
    unfolding slot_def
  proof (rule nth_equalityI)
    show "length (take sz (drop (r' * sz) d')) = length (take sz (drop (r' * sz) d))"
      by (simp add: l)
  next
    fix i assume "i < length (take sz (drop (r' * sz) d'))"
    then have i: "i < sz" and b: "r' * sz + i < length d"
      by (auto simp: l)
    have "d' ! (r' * sz + i) = d ! (r' * sz + i)"
      using store_range_nth [OF st b] slot_disjoint [OF ne i] by (simp add: len)
    then show "take sz (drop (r' * sz) d') ! i = take sz (drop (r' * sz) d) ! i"
      using i b by (simp add: l)
  qed
qed

lemma slot_store_other_le:
  assumes st: "store_range d (r * sz) v = Inr d'" and len: "length v \<le> sz" and ne: "r' \<noteq> r"
  shows "slot sz d' r' = slot sz d r'"
proof -
  have l: "length d' = length d" using st by (rule store_range_length)
  show ?thesis
    unfolding slot_def
  proof (rule nth_equalityI)
    show "length (take sz (drop (r' * sz) d')) = length (take sz (drop (r' * sz) d))"
      by (simp add: l)
  next
    fix i assume "i < length (take sz (drop (r' * sz) d'))"
    then have i: "i < sz" and b: "r' * sz + i < length d"
      by (auto simp: l)
    have "\<not> (r * sz \<le> r' * sz + i \<and> r' * sz + i < r * sz + length v)"
      using slot_disjoint [OF ne i] len by arith
    then have "d' ! (r' * sz + i) = d ! (r' * sz + i)"
      using store_range_nth [OF st b] by auto
    then show "take sz (drop (r' * sz) d') ! i = take sz (drop (r' * sz) d) ! i"
      using i b by (simp add: l)
  qed
qed

lemma slot_store_same:
  assumes st: "store_range d (r * sz) v = Inr d'" and len: "length v = sz"
  shows "slot sz d' r = v"
proof -
  from st have le: "r * sz + length v \<le> length d"
    and d': "d' = take (r * sz) d @ v @ drop (r * sz + length v) d"
    by (auto simp: store_range_def split: if_splits)
  show ?thesis
    using le by (simp add: slot_def d' len)
qed

lemma row_idx_inj:
  fixes psr :: "64 word"
  assumes "i < 2 ^ 64" "j < 2 ^ 64" "unat (psr + word_of_nat i) = unat (psr + word_of_nat j)"
  shows "i = j"
proof -
  from assms(3) have "psr + word_of_nat i = psr + word_of_nat j"
    by (simp add: word_unat_eq_iff)
  then have "(word_of_nat i :: 64 word) = word_of_nat j" by simp
  then have "unat (word_of_nat i :: 64 word) = unat (word_of_nat j :: 64 word)" by simp
  with assms(1,2) show ?thesis
    by (simp add: unat_of_nat take_bit_nat_eq_self)
qed

subsection \<open>PLAIN values of fixed width\<close>

text \<open>
  \<open>defined_between dfd k j\<close> counts the positions \<open>k \<le> i < j\<close> whose mask byte is set
  (not zero; the definition levels only ever write the bytes 0 and 1).
\<close>

definition defined_between :: "byte list \<Rightarrow> nat \<Rightarrow> nat \<Rightarrow> nat" where
  "defined_between dfd k j = length (filter (\<lambda>i. dfd ! i \<noteq> 0) [k..<j])"

lemma defined_between_step:
  "k < j \<Longrightarrow> defined_between dfd k j = (if dfd ! k \<noteq> 0 then 1 else 0) + defined_between dfd (Suc k) j"
  by (simp add: defined_between_def upt_conv_Cons)

lemma defined_between_empty [simp]: "defined_between dfd k k = 0"
  by (simp add: defined_between_def)

lemma fill_values_plain_loop_frame:
  assumes "fill_values_plain_loop sz n k cs c = Inr (cs', c')"
  shows "defined c' = defined c \<and> string_heap c' = string_heap c \<and> col c' = col c
       \<and> result_col_id c' = result_col_id c
       \<and> length (data c') = length (data c)
       \<and> cs' = cs\<lparr>page_buf_ptr := page_buf_ptr cs + sz * defined_between (defined c) k n\<rparr>
       \<and> (\<forall>r. (\<forall>j. k \<le> j \<and> j < n \<and> defined c ! j \<noteq> 0
                    \<longrightarrow> r \<noteq> unat (page_start_row cs + word_of_nat j))
              \<longrightarrow> slot sz (data c') r = slot sz (data c) r)"
  using assms
proof (induction sz n k cs c rule: fill_values_plain_loop.induct)
  case (1 sz n k cs c)
  show ?case
  proof (cases "k < n")
    case False
    with "1.prems" show ?thesis
      by (subst (asm) fill_values_plain_loop.simps) (auto simp: defined_between_def)
  next
    case kn: True
    with "1.prems" obtain b where b: "load8 (defined c) k = Inr b"
      by (subst (asm) fill_values_plain_loop.simps) (auto split: sum.splits)
    then have bk: "b = defined c ! k"
      by (auto simp: load8_def split: if_splits)
    show ?thesis
    proof (cases "b = 0")
      case True
      with "1.prems" kn b have rec: "fill_values_plain_loop sz n (k + 1) cs c = Inr (cs', c')"
        by (subst (asm) fill_values_plain_loop.simps) simp
      note IH = "1.IH"(1) [OF kn b True rec]
      have db: "defined_between (defined c) k n = defined_between (defined c) (Suc k) n"
        using kn True bk by (simp add: defined_between_step)
      have "\<And>r. (\<forall>j. k \<le> j \<and> j < n \<and> defined c ! j \<noteq> 0
                    \<longrightarrow> r \<noteq> unat (page_start_row cs + word_of_nat j))
              \<Longrightarrow> slot sz (data c') r = slot sz (data c) r"
        using IH by auto
      with IH db show ?thesis by simp
    next
      case False
      define row_idx where "row_idx = page_start_row cs + word_of_nat k"
      from "1.prems" kn b False obtain v data' where
        v: "load_range (page_buf cs) (page_buf_ptr cs) sz = Inr v"
        and st: "store_range (data c) (unat row_idx * sz) v = Inr data'"
        and rec: "fill_values_plain_loop sz n (k + 1) (cs\<lparr>page_buf_ptr := page_buf_ptr cs + sz\<rparr>)
                    (c\<lparr>data := data'\<rparr>) = Inr (cs', c')"
        by (subst (asm) fill_values_plain_loop.simps)
           (auto simp: Let_def row_idx_def split: sum.splits)
      note IH = "1.IH"(2) [OF kn b False row_idx_def v st rec]
      have lv: "length v = sz" using v by (simp add: load_range_eq)
      have db: "defined_between (defined c) k n = 1 + defined_between (defined c) (Suc k) n"
        using kn False bk by (simp add: defined_between_step)
      have fr: "slot sz (data c') r = slot sz (data c) r"
        if r: "\<forall>j. k \<le> j \<and> j < n \<and> defined c ! j \<noteq> 0
                    \<longrightarrow> r \<noteq> unat (page_start_row cs + word_of_nat j)" for r
      proof -
        from r kn False bk have "r \<noteq> unat row_idx" by (auto simp: row_idx_def)
        then have "slot sz data' r = slot sz (data c) r"
          using slot_store_other [OF st lv] by simp
        moreover have "slot sz (data c') r = slot sz data' r"
          using IH r by auto
        ultimately show ?thesis by simp
      qed
      from IH db fr show ?thesis
        by (simp add: store_range_length [OF st] algebra_simps)
    qed
  qed
qed


lemma defined_between_Suc_right:
  "k \<le> j \<Longrightarrow> defined_between dfd k (Suc j) = defined_between dfd k j + (if dfd ! j \<noteq> 0 then 1 else 0)"
  by (simp add: defined_between_def)

lemma fill_values_plain_loop_values:
  assumes "fill_values_plain_loop sz n k cs c = Inr (cs', c')" and "n \<le> 2 ^ 64"
    and "k \<le> i" "i < n" "defined c ! i \<noteq> 0"
  shows "slot sz (data c') (unat (page_start_row cs + word_of_nat i)) =
           take sz (drop (page_buf_ptr cs + sz * defined_between (defined c) k i) (page_buf cs))"
  using assms
proof (induction sz n k cs c rule: fill_values_plain_loop.induct)
  case (1 sz n k cs c)
  from "1.prems" have kn: "k < n" by simp
  with "1.prems" obtain b where b: "load8 (defined c) k = Inr b"
    by (subst (asm) fill_values_plain_loop.simps) (auto split: sum.splits)
  then have bk: "b = defined c ! k"
    by (auto simp: load8_def split: if_splits)
  show ?case
  proof (cases "b = 0")
    case True
    with "1.prems" kn b have rec: "fill_values_plain_loop sz n (k + 1) cs c = Inr (cs', c')"
      by (subst (asm) fill_values_plain_loop.simps) simp
    from True bk "1.prems" have ki: "k + 1 \<le> i"
      by (cases "i = k") auto
    have "defined_between (defined c) k i = defined_between (defined c) (Suc k) i"
      using ki True bk by (simp add: defined_between_step)
    with "1.IH"(1) [OF kn b True rec "1.prems"(2) ki "1.prems"(4,5)] show ?thesis by simp
  next
    case False
    define row_idx where "row_idx = page_start_row cs + word_of_nat k"
    from "1.prems" kn b False obtain v data' where
      v: "load_range (page_buf cs) (page_buf_ptr cs) sz = Inr v"
      and st: "store_range (data c) (unat row_idx * sz) v = Inr data'"
      and rec: "fill_values_plain_loop sz n (k + 1) (cs\<lparr>page_buf_ptr := page_buf_ptr cs + sz\<rparr>)
                  (c\<lparr>data := data'\<rparr>) = Inr (cs', c')"
      by (subst (asm) fill_values_plain_loop.simps)
         (auto simp: Let_def row_idx_def split: sum.splits)
    have lv: "length v = sz" and vv: "v = take sz (drop (page_buf_ptr cs) (page_buf cs))"
      using v by (simp_all add: load_range_eq)
    show ?thesis
    proof (cases "i = k")
      case True
      have "\<forall>j. k + 1 \<le> j \<and> j < n \<and> defined (c\<lparr>data := data'\<rparr>) ! j \<noteq> 0
              \<longrightarrow> unat row_idx \<noteq> unat (page_start_row (cs\<lparr>page_buf_ptr := page_buf_ptr cs + sz\<rparr>)
                                          + word_of_nat j)"
      proof (intro allI impI)
        fix j assume j: "k + 1 \<le> j \<and> j < n \<and> defined (c\<lparr>data := data'\<rparr>) ! j \<noteq> 0"
        show "unat row_idx \<noteq> unat (page_start_row (cs\<lparr>page_buf_ptr := page_buf_ptr cs + sz\<rparr>)
                                          + word_of_nat j)"
        proof
          assume "unat row_idx = unat (page_start_row (cs\<lparr>page_buf_ptr := page_buf_ptr cs + sz\<rparr>)
                                          + word_of_nat j)"
          then have "unat (page_start_row cs + word_of_nat k) = unat (page_start_row cs + word_of_nat j)"
            by (simp add: row_idx_def)
          moreover have "k < 2 ^ 64" "j < 2 ^ 64" using kn j "1.prems"(2) by simp_all
          ultimately have "k = j" by (rule row_idx_inj [rotated 2])
          with j show False by simp
        qed
      qed
      with fill_values_plain_loop_frame [OF rec]
      have "slot sz (data c') (unat row_idx) = slot sz data' (unat row_idx)"
        by simp
      also have "\<dots> = v" using slot_store_same [OF st lv] .
      finally show ?thesis using True vv by (simp add: row_idx_def)
    next
      case ne: False
      with "1.prems" have ki: "k + 1 \<le> i" by simp
      have d: "defined (c\<lparr>data := data'\<rparr>) ! i \<noteq> 0" using "1.prems" by simp
      have db: "defined_between (defined c) k i = 1 + defined_between (defined c) (Suc k) i"
        using ki False bk by (simp add: defined_between_step)
      from "1.IH"(2) [OF kn b False row_idx_def v st rec "1.prems"(2) ki "1.prems"(4) d] db
      show ?thesis by (simp add: algebra_simps)
    qed
  qed
qed

lemma loop_bound_le: "loop_bound n \<le> 2 ^ 64"
proof -
  have "sint n < 2 ^ 31" using sint_lt [of n] by simp
  then have "nat (sint n) < 2 ^ 31" by (simp add: nat_less_iff)
  then show ?thesis by (simp add: loop_bound_def)
qed

text \<open>
  C8.  In \<open>fill_values_plain\<close>, a position \<open>i\<close> of the page whose mask byte \<open>defined[i]\<close>
  is 0 does not advance the payload cursor and leaves the slot
  \<open>data[page_start_row + i]\<close> as it was before the page; a position whose mask byte is
  set consumes \<open>sizeof(T)\<close> payload bytes and overwrites its slot with them.  So the
  cursor ends \<open>sizeof(T)\<close> times the number of set positions further, and the value of
  a set position \<open>i\<close> is found at the cursor advanced once for each set position before
  \<open>i\<close>.  The mask itself is not changed.
\<close>

theorem fill_values_plain_frame:
  assumes "fill_values_plain sz cs c = Inr (cs', c')"
  shows "defined c' = defined c
       \<and> page_buf_ptr cs' = page_buf_ptr cs + sz * defined_between (defined c) 0
             (loop_bound (dph_num_values (data_page_header (page_header cs))))
       \<and> (\<forall>i < loop_bound (dph_num_values (data_page_header (page_header cs))).
            slot sz (data c') (unat (page_start_row cs + word_of_nat i)) =
              (if defined c ! i = 0
               then slot sz (data c) (unat (page_start_row cs + word_of_nat i))
               else take sz (drop (page_buf_ptr cs + sz * defined_between (defined c) 0 i)
                               (page_buf cs))))"
proof -
  define n where "n = loop_bound (dph_num_values (data_page_header (page_header cs)))"
  have loop: "fill_values_plain_loop sz n 0 cs c = Inr (cs', c')"
    using assms by (simp add: fill_values_plain_def n_def)
  have n: "n \<le> 2 ^ 64" unfolding n_def by (rule loop_bound_le)
  note fr = fill_values_plain_loop_frame [OF loop]
  have "slot sz (data c') (unat (page_start_row cs + word_of_nat i)) =
              (if defined c ! i = 0
               then slot sz (data c) (unat (page_start_row cs + word_of_nat i))
               else take sz (drop (page_buf_ptr cs + sz * defined_between (defined c) 0 i)
                               (page_buf cs)))" if i: "i < n" for i
  proof (cases "defined c ! i = 0")
    case True
    have "\<forall>j. 0 \<le> j \<and> j < n \<and> defined c ! j \<noteq> 0
            \<longrightarrow> unat (page_start_row cs + word_of_nat i) \<noteq> unat (page_start_row cs + word_of_nat j)"
    proof (intro allI impI notI)
      fix j assume j: "0 \<le> j \<and> j < n \<and> defined c ! j \<noteq> 0"
        and e: "unat (page_start_row cs + word_of_nat i) = unat (page_start_row cs + word_of_nat j)"
      have "i < 2 ^ 64" "j < 2 ^ 64" using i j n by simp_all
      then have "i = j" using e by (rule row_idx_inj)
      with True j show False by simp
    qed
    with fr True show ?thesis by simp
  next
    case False
    with fill_values_plain_loop_values [OF loop n _ i] show ?thesis by simp
  qed
  with fr show ?thesis by (simp add: n_def)
qed

theorem fill_values_plain_frame_witness:
  "fill_values_plain 4 (example_scan (example_data_page 4 PLAIN) [1, 2, 3, 4, 5, 6, 7, 8])
     (example_column INT32 [9, 9, 9, 9, 9, 9, 9, 9, 9, 9, 9, 9, 9, 9, 9, 9] [1, 0, 1, 0])
   = Inr ((example_scan (example_data_page 4 PLAIN) [1, 2, 3, 4, 5, 6, 7, 8])\<lparr>page_buf_ptr := 8\<rparr>,
          example_column INT32 [1, 2, 3, 4, 9, 9, 9, 9, 5, 6, 7, 8, 9, 9, 9, 9] [1, 0, 1, 0])
   \<and> defined_between [1, 0, 1, 0] 0 4 = 2"
proof -
  have ev: "fill_values_plain 4 (example_scan (example_data_page 4 PLAIN) [1, 2, 3, 4, 5, 6, 7, 8])
     (example_column INT32 [9, 9, 9, 9, 9, 9, 9, 9, 9, 9, 9, 9, 9, 9, 9, 9] [1, 0, 1, 0])
   = Inr ((example_scan (example_data_page 4 PLAIN) [1, 2, 3, 4, 5, 6, 7, 8])\<lparr>page_buf_ptr := 8\<rparr>,
          example_column INT32 [1, 2, 3, 4, 9, 9, 9, 9, 5, 6, 7, 8, 9, 9, 9, 9] [1, 0, 1, 0])"
    by (simp add: eval_defs fill_values_plain_def fill_values_plain_loop.simps)
  from fill_values_plain_frame [OF ev]
  have "page_buf_ptr ((example_scan (example_data_page 4 PLAIN) [1, 2, 3, 4, 5, 6, 7, 8])\<lparr>page_buf_ptr := 8\<rparr>)
      = page_buf_ptr (example_scan (example_data_page 4 PLAIN) [1, 2, 3, 4, 5, 6, 7, 8])
        + 4 * defined_between (defined (example_column INT32 [9, 9, 9, 9, 9, 9, 9, 9, 9, 9, 9, 9, 9, 9, 9, 9] [1, 0, 1, 0])) 0
          (loop_bound (dph_num_values (data_page_header (page_header (example_scan (example_data_page 4 PLAIN) [1, 2, 3, 4, 5, 6, 7, 8])))))"
    by blast
  then have "defined_between [1, 0, 1, 0] 0 4 = 2"
    by (simp add: eval_defs)
  with ev show ?thesis by simp
qed


subsection \<open>The string heap\<close>

text \<open>
  \<open>heap_entry m p l e\<close>: the heap entry \<open>e\<close> holds the \<open>l\<close> bytes found at \<open>p\<close> in the page
  and one more byte, the NUL at index \<open>l\<close>.
\<close>

definition heap_entry :: "byte list \<Rightarrow> nat \<Rightarrow> uint32_t \<Rightarrow> byte list \<Rightarrow> bool" where
  "heap_entry m p l e =
     (length e = unat l + 1 \<and> e ! unat l = 0 \<and> take (unat l) e = take (unat l) (drop p m)
      \<and> p + unat l \<le> length m)"

lemma drop_update_last: "length xs = Suc n \<Longrightarrow> drop n (xs[n := a]) = [a]"
  by (simp add: upd_conv_take_nth_drop)

lemma new_string_eq:
  assumes "new_string m p l = Inr e"
  shows "e = take (unat l) (drop p m) @ [0]" and "p + unat l \<le> length m"
proof -
  from assms have nz: "l + 1 \<noteq> 0"
    by (auto simp: new_string_def split: if_splits)
  then have u: "unat (l + 1) = Suc (unat l)"
    using unatSuc [of l] by (simp add: add.commute)
  from assms nz obtain bs where bs: "load_range m p (unat l) = Inr bs"
    and e: "e = bs @ drop (unat l) ((replicate (unat (l + 1)) (0xFF :: byte))[unat l := 0])"
    by (auto simp: new_string_def Let_def split: sum.splits)
  from bs have b: "bs = take (unat l) (drop p m)" and "length bs = unat l"
    by (simp_all add: load_range_eq)
  from bs show "p + unat l \<le> length m"
    by (auto simp: load_range_def split: if_splits)
  have "drop (unat l) ((replicate (Suc (unat l)) (0xFF :: byte))[unat l := 0]) = [0]"
    by (rule drop_update_last) simp
  with e u b show "e = take (unat l) (drop p m) @ [0]" by simp
qed

lemma new_string_heap_entry:
  assumes "new_string m p l = Inr e"
  shows "heap_entry m p l e"
proof -
  note e = new_string_eq [OF assms]
  have len: "length (take (unat l) (drop p m)) = unat l"
    using e(2) by simp
  show ?thesis
    unfolding heap_entry_def using e(2) len
    by (simp add: e(1) nth_append)
qed

lemma dict_strings_loop_heap:
  assumes "dict_strings_loop k cs c = Inr (cs', c')"
  shows "page_buf cs' = page_buf cs \<and> data c' = data c \<and> defined c' = defined c \<and> col c' = col c
       \<and> (\<exists>new. string_heap c' = string_heap c @ new
             \<and> (\<forall>e \<in> set new. \<exists>p l. load_le32 (page_buf cs) p = Inr l
                                    \<and> heap_entry (page_buf cs) (p + 4) l e))"
  using assms
proof (induction k cs c rule: dict_strings_loop.induct)
  case (1 k cs c)
  show ?case
  proof (cases "k < unat (dict_size cs)")
    case False
    with "1.prems" have "cs' = cs" "c' = c"
      by (subst (asm) dict_strings_loop.simps, simp split: if_splits)+
    then show ?thesis by simp
  next
    case True
    from "1.prems" have k31: "\<not> 2 ^ 31 \<le> k"
      by (subst (asm) dict_strings_loop.simps) (simp split: if_splits)
    from "1.prems" k31 True obtain l where l: "load_le32 (page_buf cs) (page_buf_ptr cs) = Inr l"
      by (subst (asm) dict_strings_loop.simps) (auto split: sum.splits)
    define p where "p = page_buf_ptr cs + 4"
    from "1.prems" k31 True l have chk: "\<not> page_buf_end_ptr cs < int p + uint l"
      by (subst (asm) dict_strings_loop.simps) (simp add: Let_def p_def split: if_splits)
    from "1.prems" k31 True l chk obtain s where s: "new_string (page_buf cs) p l = Inr s"
      and rec: "dict_strings_loop (k + 1) (cs\<lparr>page_buf_ptr := p + unat l\<rparr>)
                  (c\<lparr>string_heap := string_heap c @ [s]\<rparr>) = Inr (cs', c')"
      by (subst (asm) dict_strings_loop.simps) (auto simp: Let_def p_def split: sum.splits)
    from "1.IH" [OF k31 True l p_def chk s rec]
    obtain new where inv: "page_buf cs' = page_buf cs" "data c' = data c" "defined c' = defined c"
        "col c' = col c"
      and h: "string_heap c' = (string_heap c @ [s]) @ new"
      and es: "\<forall>e \<in> set new. \<exists>p l. load_le32 (page_buf cs) p = Inr l
                                    \<and> heap_entry (page_buf cs) (p + 4) l e"
      by auto
    have "heap_entry (page_buf cs) (page_buf_ptr cs + 4) l s"
      using new_string_heap_entry [OF s] by (simp add: p_def)
    with l es have "\<forall>e \<in> set (s # new). \<exists>p l. load_le32 (page_buf cs) p = Inr l
                                    \<and> heap_entry (page_buf cs) (p + 4) l e"
      by auto
    moreover have "string_heap c' = string_heap c @ (s # new)" using h by simp
    ultimately show ?thesis using inv by blast
  qed
qed


text \<open>
  What a PLAIN data page appends: for \<open>BYTE_ARRAY\<close> the declared length \<open>l\<close> is the
  4-byte prefix at \<open>p\<close> and the bytes follow it; otherwise (\<open>FIXED_LEN_BYTE_ARRAY\<close>) the
  declared length is \<open>type_len\<close> and the bytes are at \<open>p\<close>.
\<close>

definition plain_entry :: "ColumnScan \<Rightarrow> ResultColumn \<Rightarrow> uint32_t \<Rightarrow> byte list \<Rightarrow> bool" where
  "plain_entry cs c str_len e =
     (\<exists>p l. (if col_type (col c) = BYTE_ARRAY
              then load_le32 (page_buf cs) p = Inr l \<and> heap_entry (page_buf cs) (p + 4) l e
              else l = str_len \<and> heap_entry (page_buf cs) p l e))"

lemma plain_strings_loop_heap:
  assumes "plain_strings_loop n k str_len cs c = Inr (cs', c')"
  shows "page_buf cs' = page_buf cs \<and> defined c' = defined c \<and> col c' = col c
       \<and> (\<exists>new. string_heap c' = string_heap c @ new
             \<and> (\<forall>e \<in> set new. plain_entry cs c str_len e))"
  using assms
proof (induction n k str_len cs c rule: plain_strings_loop.induct)
  case (1 n k str_len cs c)
  show ?case
  proof (cases "k < n")
    case False
    with "1.prems" have "cs' = cs" "c' = c"
      by (subst (asm) plain_strings_loop.simps, simp)+
    then show ?thesis by simp
  next
    case kn: True
    with "1.prems" obtain b where b: "load8 (defined c) k = Inr b"
      by (subst (asm) plain_strings_loop.simps) (auto split: sum.splits)
    show ?thesis
    proof (cases "b = 0")
      case True
      with "1.prems" kn b have rec: "plain_strings_loop n (k + 1) str_len cs c = Inr (cs', c')"
        by (subst (asm) plain_strings_loop.simps) simp
      from "1.IH"(1) [OF kn b True rec] show ?thesis .
    next
      case False
      define row_idx where "row_idx = page_start_row cs + word_of_nat k"
      define hd_read where "hd_read =
        (if col_type (col c) = BYTE_ARRAY
         then and_then (load_le32 (page_buf cs) (page_buf_ptr cs)) (\<lambda>l. Inr (l, page_buf_ptr cs + 4))
         else Inr (str_len, page_buf_ptr cs))"
      from "1.prems" kn b False obtain l p where lp: "hd_read = Inr (l, p)"
        by (subst (asm) plain_strings_loop.simps)
           (auto simp: Let_def hd_read_def split: sum.splits)
      from "1.prems" kn b False lp have chk: "\<not> page_buf_end_ptr cs < int p + uint l"
        by (subst (asm) plain_strings_loop.simps)
           (simp add: Let_def hd_read_def [symmetric] split: if_splits)
      from "1.prems" kn b False lp chk obtain s where s: "new_string (page_buf cs) p l = Inr s"
        by (subst (asm) plain_strings_loop.simps)
           (auto simp: Let_def hd_read_def [symmetric] split: sum.splits)
      define heap' where "heap' = string_heap c @ [s]"
      from "1.prems" kn b False lp chk s obtain data' where
        st: "store_range (data c) (unat row_idx * 8)
               (le_bytes 8 (word_of_nat (length heap') - 1 :: 64 word)) = Inr data'"
        and rec: "plain_strings_loop n (k + 1) l (cs\<lparr>page_buf_ptr := p + unat l\<rparr>)
                    (c\<lparr>string_heap := heap', data := data'\<rparr>) = Inr (cs', c')"
        by (subst (asm) plain_strings_loop.simps)
           (auto simp: Let_def hd_read_def [symmetric] row_idx_def heap'_def split: sum.splits)
      from "1.IH"(2) [OF kn b False row_idx_def lp [unfolded hd_read_def] refl chk s heap'_def st rec]
      obtain new where inv: "page_buf cs' = page_buf cs" "defined c' = defined c" "col c' = col c"
        and h: "string_heap c' = heap' @ new"
        and es: "\<forall>e \<in> set new. plain_entry (cs\<lparr>page_buf_ptr := p + unat l\<rparr>)
                                  (c\<lparr>string_heap := heap', data := data'\<rparr>) l e"
        by auto
      have s_entry: "plain_entry cs c str_len s"
      proof (cases "col_type (col c) = BYTE_ARRAY")
        case True
        with lp have "load_le32 (page_buf cs) (page_buf_ptr cs) = Inr l" "p = page_buf_ptr cs + 4"
          by (auto simp: hd_read_def and_then_def split: sum.splits)
        with new_string_heap_entry [OF s] True show ?thesis
          by (auto simp: plain_entry_def)
      next
        case False
        with lp have "l = str_len" "p = page_buf_ptr cs"
          by (auto simp: hd_read_def)
        with new_string_heap_entry [OF s] False show ?thesis
          by (auto simp: plain_entry_def)
      qed
      have l_eq: "col_type (col c) \<noteq> BYTE_ARRAY \<Longrightarrow> l = str_len"
        using lp by (auto simp: hd_read_def)
      have "plain_entry cs c str_len e" if "e \<in> set new" for e
      proof -
        from es that have pe: "plain_entry (cs\<lparr>page_buf_ptr := p + unat l\<rparr>)
                                  (c\<lparr>string_heap := heap', data := data'\<rparr>) l e"
          by blast
        show ?thesis
        proof (cases "col_type (col c) = BYTE_ARRAY")
          case True
          with pe show ?thesis by (simp add: plain_entry_def)
        next
          case False
          with pe l_eq show ?thesis by (simp add: plain_entry_def)
        qed
      qed
      with s_entry have "\<forall>e \<in> set (s # new). plain_entry cs c str_len e" by auto
      moreover have "string_heap c' = string_heap c @ (s # new)" using h by (simp add: heap'_def)
      ultimately show ?thesis using inv by blast
    qed
  qed
qed


lemma fill_dict_heap: "fill_dict sz cs = Inr cs' \<Longrightarrow> page_buf cs' = page_buf cs"
  by (auto simp: fill_dict_def split: sum.splits)

text \<open>
  C9.  Every byte sequence appended to \<open>string_heap\<close>, by a dictionary page or by a
  PLAIN data page, is one byte longer than its declared length and has the NUL
  character at the index \<open>str_len\<close>.  (For the other column types nothing is appended.)
\<close>

theorem string_heap_entries_nul_terminated:
  "(scan_dict_page cs c = Inr (cs', c') \<longrightarrow>
      (\<exists>new. string_heap c' = string_heap c @ new
         \<and> (\<forall>e \<in> set new. \<exists>p l. load_le32 (page_buf cs) p = Inr l
                                \<and> heap_entry (page_buf cs) (p + 4) l e)))
   \<and> (scan_data_page_plain cs c = Inr (cs'', c'') \<longrightarrow>
      (\<exists>new. string_heap c'' = string_heap c @ new
         \<and> (\<forall>e \<in> set new. plain_entry cs c (type_len cs) e)))"
proof (intro conjI impI)
  assume a: "scan_dict_page cs c = Inr (cs', c')"
  define cs1 where "cs1 = cs\<lparr>seen_dict := True,
      dict_size := scast (dict_num_values (dictionary_page_header (page_header cs)))\<rparr>"
  show "\<exists>new. string_heap c' = string_heap c @ new
         \<and> (\<forall>e \<in> set new. \<exists>p l. load_le32 (page_buf cs) p = Inr l
                                \<and> heap_entry (page_buf cs) (p + 4) l e)"
  proof (cases "col_type (col c) = BYTE_ARRAY")
    case True
    with a have "dict_strings_loop 0 cs1 c = Inr (cs', c')"
      by (simp add: scan_dict_page_def Let_def cs1_def split: if_splits)
    from dict_strings_loop_heap [OF this] show ?thesis
      by (simp add: cs1_def)
  next
    case False
    with a have "c' = c"
      by (cases "col_type (col c)")
         (auto simp: scan_dict_page_def Let_def and_then_def split: if_splits sum.splits)
    then show ?thesis by simp
  qed
next
  assume a: "scan_data_page_plain cs c = Inr (cs'', c'')"
  define n where "n = loop_bound (dph_num_values (data_page_header (page_header cs)))"
  show "\<exists>new. string_heap c'' = string_heap c @ new
         \<and> (\<forall>e \<in> set new. plain_entry cs c (type_len cs) e)"
  proof (cases "col_type (col c) = BYTE_ARRAY \<or> col_type (col c) = FIXED_LEN_BYTE_ARRAY")
    case True
    with a have "plain_strings_loop n 0 (type_len cs) cs c = Inr (cs'', c'')"
      by (auto simp: scan_data_page_plain_def Let_def n_def split: sum.splits)
    from plain_strings_loop_heap [OF this] show ?thesis by simp
  next
    case False
    with a obtain sz where "fill_values_plain sz cs c = Inr (cs'', c'')"
      by (cases "col_type (col c)")
         (auto simp: scan_data_page_plain_def Let_def split: sum.splits)
    then have "string_heap c'' = string_heap c"
      using fill_values_plain_loop_frame [of sz n 0 cs c cs'' c'']
      by (simp add: fill_values_plain_def n_def)
    then show ?thesis by simp
  qed
qed

theorem string_heap_entries_nul_terminated_witness:
  "scan_dict_page (example_scan (example_dictionary_page 2) [1, 0, 0, 0, 0x61, 0, 0, 0, 0])
     (example_column BYTE_ARRAY [] [])
   = Inr ((example_scan (example_dictionary_page 2) [1, 0, 0, 0, 0x61, 0, 0, 0, 0])
            \<lparr>seen_dict := True, dict_size := 2, page_buf_ptr := 9\<rparr>,
          (example_column BYTE_ARRAY [] [])\<lparr>string_heap := [[0x61, 0], [0]]\<rparr>)
   \<and> scan_data_page_plain (example_scan (example_data_page 2 PLAIN) [2, 0, 0, 0, 0x68, 0x69])
       (example_column BYTE_ARRAY [9, 9, 9, 9, 9, 9, 9, 9, 9, 9, 9, 9, 9, 9, 9, 9] [0, 1])
   = Inr ((example_scan (example_data_page 2 PLAIN) [2, 0, 0, 0, 0x68, 0x69])\<lparr>page_buf_ptr := 6\<rparr>,
          (example_column BYTE_ARRAY [9, 9, 9, 9, 9, 9, 9, 9, 0, 0, 0, 0, 0, 0, 0, 0] [0, 1])
            \<lparr>string_heap := [[0x68, 0x69, 0]]\<rparr>)
   \<and> heap_entry [1, 0, 0, 0, 0x61, 0, 0, 0, 0] 4 1 [0x61, 0]"
proof -
  have ev1: "scan_dict_page (example_scan (example_dictionary_page 2) [1, 0, 0, 0, 0x61, 0, 0, 0, 0])
     (example_column BYTE_ARRAY [] [])
   = Inr ((example_scan (example_dictionary_page 2) [1, 0, 0, 0, 0x61, 0, 0, 0, 0])
            \<lparr>seen_dict := True, dict_size := 2, page_buf_ptr := 9\<rparr>,
          (example_column BYTE_ARRAY [] [])\<lparr>string_heap := [[0x61, 0], [0]]\<rparr>)"
    by (simp add: eval_defs scan_dict_page_def dict_strings_loop.simps new_string_def)
  have ev2: "scan_data_page_plain (example_scan (example_data_page 2 PLAIN) [2, 0, 0, 0, 0x68, 0x69])
       (example_column BYTE_ARRAY [9, 9, 9, 9, 9, 9, 9, 9, 9, 9, 9, 9, 9, 9, 9, 9] [0, 1])
   = Inr ((example_scan (example_data_page 2 PLAIN) [2, 0, 0, 0, 0x68, 0x69])\<lparr>page_buf_ptr := 6\<rparr>,
          (example_column BYTE_ARRAY [9, 9, 9, 9, 9, 9, 9, 9, 0, 0, 0, 0, 0, 0, 0, 0] [0, 1])
            \<lparr>string_heap := [[0x68, 0x69, 0]]\<rparr>)"
    by (simp add: eval_defs scan_data_page_plain_def count_nulls.simps plain_strings_loop.simps
          new_string_def le_bytes_8)
  from string_heap_entries_nul_terminated
    [of "example_scan (example_dictionary_page 2) [1, 0, 0, 0, 0x61, 0, 0, 0, 0]"
        "example_column BYTE_ARRAY [] []" _ _
        "example_scan (example_data_page 2 PLAIN) [2, 0, 0, 0, 0x68, 0x69]"
        "example_column BYTE_ARRAY [9, 9, 9, 9, 9, 9, 9, 9, 9, 9, 9, 9, 9, 9, 9, 9] [0, 1]"]
  show ?thesis using ev1 ev2 by (simp add: example_column_def heap_entry_def)
qed


subsection \<open>Dictionary-encoded data pages\<close>

lemma nat_sint_nonneg:
  fixes w :: "32 word"
  assumes "\<not> sint w < 0"
  shows "nat (sint w) = unat w"
proof -
  have "sint w < 2 ^ 31" using sint_lt [of w] by simp
  then have "sint w < 2 ^ 32" by simp
  with assms have "take_bit 32 (sint w) = sint w"
    by (simp add: take_bit_int_eq_self)
  then have "uint w = sint w" using uint_sint [of w] by simp
  then show ?thesis by (simp add: unat_eq_nat_uint)
qed

lemma decode_offsets_result:
  assumes "decode_offsets fr cs c = Inr (offsets, cs1)"
  shows "cs1 = cs\<lparr>page_buf_ptr := page_buf_ptr cs + 1\<rparr>"
    and "length offsets = loop_bound (dph_num_values (data_page_header (page_header cs)))"
proof -
  define nv where "nv = dph_num_values (data_page_header (page_header cs))"
  from assms have nn: "\<not> sint nv < 0"
    by (auto simp: decode_offsets_def Let_def nv_def split: if_splits)
  then have lb: "loop_bound nv = unat nv"
    by (simp add: loop_bound_def nat_sint_nonneg)
  from assms nn obtain enc where enc: "load8 (page_buf cs) (page_buf_ptr cs) = Inr enc"
    by (auto simp: decode_offsets_def Let_def nv_def split: sum.splits)
  show "cs1 = cs\<lparr>page_buf_ptr := page_buf_ptr cs + 1\<rparr>"
    using assms nn enc
    by (auto simp: decode_offsets_def Let_def nv_def [symmetric] split: sum.splits if_splits)
  show "length offsets = loop_bound (dph_num_values (data_page_header (page_header cs)))"
  proof (cases "enc > 0")
    case False
    with assms nn enc have "offsets = replicate (unat nv) 0"
      by (auto simp: decode_offsets_def Let_def nv_def [symmetric] split: sum.splits if_splits)
    with lb show ?thesis by (simp add: nv_def)
  next
    case True
    with assms nn enc have "length offsets = length (map fr [0..<unat nv])"
      by (auto simp: decode_offsets_def Let_def nv_def [symmetric] GetBatch_def GetBatchSpaced_def
               split: sum.splits if_splits
               dest: GetBatch_loop_length GetBatchSpaced_loop_length)
    with lb show ?thesis by (simp add: nv_def)
  qed
qed

lemma length_le_bytes [simp]: "length (le_bytes n w) = n"
  by (simp add: le_bytes_def)

lemma dict_offsets_loop_frame:
  assumes "dict_offsets_loop n k offsets cs c = Inr c'"
  shows "defined c' = defined c \<and> string_heap c' = string_heap c \<and> col c' = col c
       \<and> length (data c') = length (data c)
       \<and> (\<forall>r. (\<forall>j. k \<le> j \<and> j < n \<longrightarrow> r \<noteq> unat (page_start_row cs + word_of_nat j))
              \<longrightarrow> slot 8 (data c') r = slot 8 (data c) r)"
  using assms
proof (induction n k offsets cs c rule: dict_offsets_loop.induct)
  case (1 n k offsets cs c)
  show ?case
  proof (cases "k < n")
    case False
    with "1.prems" show ?thesis
      by (subst (asm) dict_offsets_loop.simps) auto
  next
    case kn: True
    with "1.prems" obtain data' where
      st: "store_range (data c) (unat (page_start_row cs + word_of_nat k) * 8)
             (le_bytes 8 (ucast (offsets ! k) :: 64 word)) = Inr data'"
      and rec: "dict_offsets_loop n (k + 1) offsets cs (c\<lparr>data := data'\<rparr>) = Inr c'"
      by (subst (asm) dict_offsets_loop.simps) (auto split: sum.splits)
    note IH = "1.IH" [OF kn st rec]
    have fr: "slot 8 (data c') r = slot 8 (data c) r"
      if r: "\<forall>j. k \<le> j \<and> j < n \<longrightarrow> r \<noteq> unat (page_start_row cs + word_of_nat j)" for r
    proof -
      from r kn have "r \<noteq> unat (page_start_row cs + word_of_nat k)" by auto
      then have "slot 8 data' r = slot 8 (data c) r"
        using slot_store_other [OF st] by simp
      moreover have "slot 8 (data c') r = slot 8 data' r"
        using IH r by auto
      ultimately show ?thesis by simp
    qed
    from IH fr show ?thesis
      by (simp add: store_range_length [OF st])
  qed
qed

lemma dict_offsets_loop_values:
  assumes "dict_offsets_loop n k offsets cs c = Inr c'" and "n \<le> 2 ^ 64"
    and "k \<le> i" "i < n"
  shows "slot 8 (data c') (unat (page_start_row cs + word_of_nat i)) =
           le_bytes 8 (ucast (offsets ! i) :: 64 word)"
  using assms
proof (induction n k offsets cs c rule: dict_offsets_loop.induct)
  case (1 n k offsets cs c)
  from "1.prems" have kn: "k < n" by simp
  with "1.prems" obtain data' where
    st: "store_range (data c) (unat (page_start_row cs + word_of_nat k) * 8)
           (le_bytes 8 (ucast (offsets ! k) :: 64 word)) = Inr data'"
    and rec: "dict_offsets_loop n (k + 1) offsets cs (c\<lparr>data := data'\<rparr>) = Inr c'"
    by (subst (asm) dict_offsets_loop.simps) (auto split: sum.splits)
  show ?case
  proof (cases "i = k")
    case True
    have "\<forall>j. k + 1 \<le> j \<and> j < n
            \<longrightarrow> unat (page_start_row cs + word_of_nat k) \<noteq> unat (page_start_row cs + word_of_nat j)"
    proof (intro allI impI notI)
      fix j assume j: "k + 1 \<le> j \<and> j < n"
        and e: "unat (page_start_row cs + word_of_nat k) = unat (page_start_row cs + word_of_nat j)"
      have "k < 2 ^ 64" "j < 2 ^ 64" using kn j "1.prems"(2) by simp_all
      then have "k = j" using e by (rule row_idx_inj)
      with j show False by simp
    qed
    with dict_offsets_loop_frame [OF rec]
    have "slot 8 (data c') (unat (page_start_row cs + word_of_nat k))
            = slot 8 data' (unat (page_start_row cs + word_of_nat k))"
      by simp
    also have "\<dots> = le_bytes 8 (ucast (offsets ! k) :: 64 word)"
      using slot_store_same [OF st] by simp
    finally show ?thesis using True by simp
  next
    case False
    with "1.prems" have ki: "k + 1 \<le> i" by simp
    from "1.IH" [OF kn st rec "1.prems"(2) ki "1.prems"(4)] show ?thesis .
  qed
qed


lemma fill_values_dict_loop_frame:
  assumes "fill_values_dict_loop sz n k offsets cs c = Inr c'"
  shows "defined c' = defined c
       \<and> (\<forall>r. (\<forall>j. k \<le> j \<and> j < n \<and> defined c ! j \<noteq> 0
                    \<longrightarrow> r \<noteq> unat (page_start_row cs + word_of_nat j))
              \<longrightarrow> slot sz (data c') r = slot sz (data c) r)"
  using assms
proof (induction sz n k offsets cs c rule: fill_values_dict_loop.induct)
  case (1 sz n k offsets cs c)
  show ?case
  proof (cases "k < n")
    case False
    with "1.prems" show ?thesis
      by (subst (asm) fill_values_dict_loop.simps) auto
  next
    case kn: True
    define row_idx where "row_idx = page_start_row cs + word_of_nat k"
    from "1.prems" kn obtain b where b: "load8 (defined c) k = Inr b"
      by (subst (asm) fill_values_dict_loop.simps) (auto simp: Let_def split: sum.splits)
    then have bk: "b = defined c ! k"
      by (auto simp: load8_def split: if_splits)
    show ?thesis
    proof (cases "b \<noteq> 0")
      case False
      with "1.prems" kn b have rec: "fill_values_dict_loop sz n (k + 1) offsets cs c = Inr c'"
        by (subst (asm) fill_values_dict_loop.simps) (simp add: Let_def)
      note IH = "1.IH"(2) [OF kn row_idx_def b False rec]
      have "\<And>r. (\<forall>j. k \<le> j \<and> j < n \<and> defined c ! j \<noteq> 0
                    \<longrightarrow> r \<noteq> unat (page_start_row cs + word_of_nat j))
              \<Longrightarrow> slot sz (data c') r = slot sz (data c) r"
        using IH by auto
      with IH show ?thesis by simp
    next
      case True
      from "1.prems" kn b True obtain v data' where
        v: "Dictionary_get (dict cs) (offsets ! k) = Inr v"
        and st: "store_range (data c) (unat row_idx * sz) (take sz v) = Inr data'"
        and rec: "fill_values_dict_loop sz n (k + 1) offsets cs (c\<lparr>data := data'\<rparr>) = Inr c'"
        by (subst (asm) fill_values_dict_loop.simps)
           (auto simp: Let_def row_idx_def split: sum.splits)
      note IH = "1.IH"(1) [OF kn row_idx_def b True v st rec]
      have fr: "slot sz (data c') r = slot sz (data c) r"
        if r: "\<forall>j. k \<le> j \<and> j < n \<and> defined c ! j \<noteq> 0
                    \<longrightarrow> r \<noteq> unat (page_start_row cs + word_of_nat j)" for r
      proof -
        from r kn True bk have ne: "r \<noteq> unat row_idx" by (auto simp: row_idx_def)
        have "slot sz data' r = slot sz (data c) r"
          using slot_store_other_le [OF st _ ne] by simp
        moreover have "slot sz (data c') r = slot sz data' r"
          using IH r by auto
        ultimately show ?thesis by simp
      qed
      from IH fr show ?thesis by simp
    qed
  qed
qed

text \<open>
  C10.  In a dictionary-encoded data page of a \<open>BYTE_ARRAY\<close> column every position \<open>i\<close> of
  the page, whatever its mask byte, has its slot \<open>data[page_start_row + i]\<close> overwritten
  with the decoded offset \<open>offsets[i]\<close> (widened to 64 bits); the offset is compared
  with nothing, in particular not with \<open>dict_size\<close>.  The numeric path differs: there the
  slot of a position whose mask byte is 0 is left as it was.  \<open>offsets\<close> is the array
  after the index stream has been decoded into it, one entry per position.
\<close>

theorem scan_data_page_dict_slots:
  assumes "scan_data_page_dict fr cs c = Inr (cs', c')"
  shows "\<exists>offsets cs1.
           decode_offsets fr cs c = Inr (offsets, cs1)
         \<and> length offsets = loop_bound (dph_num_values (data_page_header (page_header cs)))
         \<and> (col_type (col c) = BYTE_ARRAY \<longrightarrow>
              (\<forall>i < loop_bound (dph_num_values (data_page_header (page_header cs))).
                 slot 8 (data c') (unat (page_start_row cs + word_of_nat i)) =
                   le_bytes 8 (ucast (offsets ! i) :: 64 word)))
         \<and> (col_type (col c) \<noteq> BYTE_ARRAY \<longrightarrow>
              (\<exists>sz. fill_values_dict sz offsets cs1 c = Inr c'
                 \<and> (\<forall>i < loop_bound (dph_num_values (data_page_header (page_header cs))).
                      defined c ! i = 0 \<longrightarrow>
                        slot sz (data c') (unat (page_start_row cs + word_of_nat i)) =
                          slot sz (data c) (unat (page_start_row cs + word_of_nat i)))))"
proof -
  define n where "n = loop_bound (dph_num_values (data_page_header (page_header cs)))"
  have n: "n \<le> 2 ^ 64" unfolding n_def by (rule loop_bound_le)
  from assms obtain offsets cs1 where dec: "decode_offsets fr cs c = Inr (offsets, cs1)"
    by (auto simp: scan_data_page_dict_def split: if_splits sum.splits)
  note res = decode_offsets_result [OF dec]
  have ph: "page_header cs1 = page_header cs" and psr: "page_start_row cs1 = page_start_row cs"
    by (simp_all add: res(1))
  have A: "col_type (col c) = BYTE_ARRAY \<longrightarrow>
              (\<forall>i < n. slot 8 (data c') (unat (page_start_row cs + word_of_nat i)) =
                   le_bytes 8 (ucast (offsets ! i) :: 64 word))"
  proof (intro impI allI)
    fix i assume t: "col_type (col c) = BYTE_ARRAY" and i: "i < n"
    from assms dec t have "dict_offsets_loop n 0 offsets cs1 c = Inr c'"
      by (auto simp: scan_data_page_dict_def Let_def and_then_def n_def ph
               split: if_splits sum.splits)
    from dict_offsets_loop_values [OF this n _ i]
    show "slot 8 (data c') (unat (page_start_row cs + word_of_nat i)) =
            le_bytes 8 (ucast (offsets ! i) :: 64 word)"
      by (simp add: psr)
  qed
  have B: "col_type (col c) \<noteq> BYTE_ARRAY \<longrightarrow>
              (\<exists>sz. fill_values_dict sz offsets cs1 c = Inr c'
                 \<and> (\<forall>i < n. defined c ! i = 0 \<longrightarrow>
                        slot sz (data c') (unat (page_start_row cs + word_of_nat i)) =
                          slot sz (data c) (unat (page_start_row cs + word_of_nat i))))"
  proof
    assume t: "col_type (col c) \<noteq> BYTE_ARRAY"
    with assms dec obtain sz where f: "fill_values_dict sz offsets cs1 c = Inr c'"
      by (cases "col_type (col c)")
         (auto simp: scan_data_page_dict_def Let_def and_then_def split: if_splits sum.splits)
    then have loop: "fill_values_dict_loop sz n 0 offsets cs1 c = Inr c'"
      by (simp add: fill_values_dict_def n_def ph)
    note fr = fill_values_dict_loop_frame [OF loop]
    have "slot sz (data c') (unat (page_start_row cs + word_of_nat i)) =
            slot sz (data c) (unat (page_start_row cs + word_of_nat i))"
      if i: "i < n" and z: "defined c ! i = 0" for i
    proof -
      have "\<forall>j. 0 \<le> j \<and> j < n \<and> defined c ! j \<noteq> 0
              \<longrightarrow> unat (page_start_row cs + word_of_nat i)
                    \<noteq> unat (page_start_row cs1 + word_of_nat j)"
      proof (intro allI impI notI)
        fix j assume j: "0 \<le> j \<and> j < n \<and> defined c ! j \<noteq> 0"
          and e: "unat (page_start_row cs + word_of_nat i) = unat (page_start_row cs1 + word_of_nat j)"
        have "i < 2 ^ 64" "j < 2 ^ 64" using i j n by simp_all
        then have "i = j" using e unfolding psr by (rule row_idx_inj)
        with z j show False by simp
      qed
      with fr show ?thesis by simp
    qed
    with f show "\<exists>sz. fill_values_dict sz offsets cs1 c = Inr c'
                 \<and> (\<forall>i < n. defined c ! i = 0 \<longrightarrow>
                        slot sz (data c') (unat (page_start_row cs + word_of_nat i)) =
                          slot sz (data c) (unat (page_start_row cs + word_of_nat i)))"
      by blast
  qed
  from dec res(2) A B show ?thesis
    unfolding n_def by blast
qed


theorem scan_data_page_dict_slots_witness:
  "scan_data_page_dict (\<lambda>k. 0xAB)
     ((example_scan (example_data_page 2 RLE_DICTIONARY) [3, 2, 5])\<lparr>seen_dict := True, dict_size := 1\<rparr>)
     (example_column BYTE_ARRAY [9, 9, 9, 9, 9, 9, 9, 9, 9, 9, 9, 9, 9, 9, 9, 9] [1, 0])
   = Inr ((example_scan (example_data_page 2 RLE_DICTIONARY) [3, 2, 5])
            \<lparr>seen_dict := True, dict_size := 1, page_buf_ptr := 1\<rparr>,
          example_column BYTE_ARRAY [5, 0, 0, 0, 0, 0, 0, 0, 0xAB, 0, 0, 0, 0, 0, 0, 0] [1, 0])
   \<and> decode_offsets (\<lambda>k. 0xAB)
       ((example_scan (example_data_page 2 RLE_DICTIONARY) [3, 2, 5])\<lparr>seen_dict := True, dict_size := 1\<rparr>)
       (example_column BYTE_ARRAY [9, 9, 9, 9, 9, 9, 9, 9, 9, 9, 9, 9, 9, 9, 9, 9] [1, 0])
   = Inr ([5, 0xAB], (example_scan (example_data_page 2 RLE_DICTIONARY) [3, 2, 5])
            \<lparr>seen_dict := True, dict_size := 1, page_buf_ptr := 1\<rparr>)"
proof -
  have dec: "decode_offsets (\<lambda>k. 0xAB)
       ((example_scan (example_data_page 2 RLE_DICTIONARY) [3, 2, 5])\<lparr>seen_dict := True, dict_size := 1\<rparr>)
       (example_column BYTE_ARRAY [9, 9, 9, 9, 9, 9, 9, 9, 9, 9, 9, 9, 9, 9, 9, 9] [1, 0])
   = Inr ([5, 0xAB], (example_scan (example_data_page 2 RLE_DICTIONARY) [3, 2, 5])
            \<lparr>seen_dict := True, dict_size := 1, page_buf_ptr := 1\<rparr>)"
    by (simp add: eval_defs upt_numeral_unfold decode_offsets_def count_nulls.simps RleBpDecoder_new_def shl_int_def sub_int_def
          GetBatchSpaced_def GetBatchSpaced_loop.simps GetBatchSpaced_repeat.simps
          NextCounts_def VarintDecode_def VarintDecode_loop.simps read_current_value.simps
          word_le_nat_alt word_less_nat_alt)
  have ev: "scan_data_page_dict (\<lambda>k. 0xAB)
     ((example_scan (example_data_page 2 RLE_DICTIONARY) [3, 2, 5])\<lparr>seen_dict := True, dict_size := 1\<rparr>)
     (example_column BYTE_ARRAY [9, 9, 9, 9, 9, 9, 9, 9, 9, 9, 9, 9, 9, 9, 9, 9] [1, 0])
   = Inr ((example_scan (example_data_page 2 RLE_DICTIONARY) [3, 2, 5])
            \<lparr>seen_dict := True, dict_size := 1, page_buf_ptr := 1\<rparr>,
          example_column BYTE_ARRAY [5, 0, 0, 0, 0, 0, 0, 0, 0xAB, 0, 0, 0, 0, 0, 0, 0] [1, 0])"
    by (simp add: scan_data_page_dict_def dec)
       (simp add: eval_defs dict_offsets_loop.simps le_bytes_8)
  from scan_data_page_dict_slots [OF ev] dec ev show ?thesis by simp
qed


subsection \<open>Definition levels\<close>

text \<open>
  C2.  The definition levels of a data page are decoded into \<open>result_col.defined\<close> from
  index 0 on, not from \<open>page_start_row\<close> on: \<open>GetBatch\<close> is handed \<open>defined.ptr\<close> itself.  In a
  column chunk of two pages of two rows each, the first all null and the second all
  defined, both pages succeed, the cursor moves past the four bytes of \<open>def_length\<close>, the
  \<open>def_length\<close> bytes of levels and the payload, and \<open>page_start_row\<close> ends at 4; the values of the second page are stored in the
  rows 2 and 3 of \<open>data\<close>, but its levels have overwritten \<open>defined[0]\<close> and \<open>defined[1]\<close>, so that
  \<open>defined\<close> ends as \<open>[1, 1, 0, 0]\<close> where the rows hold \<open>[0, 0, 1, 1]\<close>.
\<close>

theorem scan_data_page_defined_offset:
  "\<exists>cs c. two_data_pages = Inr (cs, c) \<and> page_start_row cs = 4 \<and> page_buf_ptr cs = 14
      \<and> defined c = [1, 1, 0, 0]
      \<and> data c = [0, 0, 0, 0, 0, 0, 0, 0, 0x11, 0x22, 0x33, 0x44, 0x55, 0x66, 0x77, 0x88]"
  by (simp add: two_data_pages_def eval_defs scan_data_page_def
       RleBpDecoder_new_def shl_int_def sub_int_def GetBatch_def GetBatch_loop.simps
       NextCounts_def VarintDecode_def VarintDecode_loop.simps read_current_value.simps
       word_le_nat_alt word_less_nat_alt
       scan_data_page_plain_def count_nulls.simps fill_values_plain_def fill_values_plain_loop.simps)


section \<open>Properties of the file reader\<close>

subsection \<open>The start of a column chunk\<close>

lemma read_chunk_bytes:
  assumes "read_chunk file start len = Inr buf"
  shows "0 \<le> sint start \<and> 0 \<le> sint len \<and> nat (sint start) + nat (sint len) \<le> length file
         \<and> take (nat (sint len)) buf = take (nat (sint len)) (drop (nat (sint start)) file)
         \<and> length buf = nat (sint len) + 128"
  using assms by (auto simp: read_chunk_def split: if_splits)

text \<open>
  C6.  A column chunk that \<open>scan_column\<close> gets to read (the row group and the column
  exist, the chunk has no \<open>file_path\<close> and a path of length 1) is read from
  \<open>dictionary_page_offset\<close> if that field is set and, as a signed number, at least 4, and
  from \<open>data_page_offset\<close> otherwise: the scan is the page loop over what \<open>read_chunk\<close>
  answers for that offset and \<open>total_compressed_size\<close>, and a successful read is at a
  non-negative offset and yields the bytes of the file from that offset on.
\<close>

theorem scan_column_chunk_start:
  assumes "unat (row_group_idx s) < length (row_groups (file_meta_data pf))"
    and "result_col_id c < length (columns (row_groups (file_meta_data pf) ! unat (row_group_idx s)))"
    and "chunk = columns (row_groups (file_meta_data pf) ! unat (row_group_idx s)) ! result_col_id c"
    and "\<not> isset_file_path chunk"
    and "length (path_in_schema (meta_data chunk)) = 1"
    and "start = (if isset_dictionary_page_offset (meta_data chunk)
                      \<and> 4 \<le> sint (dictionary_page_offset (meta_data chunk))
                   then dictionary_page_offset (meta_data chunk)
                   else data_page_offset (meta_data chunk))"
    and "len = total_compressed_size (meta_data chunk)"
  shows "scan_column ext fuel pf s c =
           (case read_chunk (pfile pf) start len of
              Inl e \<Rightarrow> Some (Inl e)
            | Inr chunk_buf \<Rightarrow>
                scan_pages ext (codec (meta_data chunk)) chunk_buf fuel 0 len
                  (if col_type (col c) = FIXED_LEN_BYTE_ARRAY
                   then ColumnScan_new\<lparr>type_len := type_length (schema_element (col c))\<rparr>
                   else ColumnScan_new) c)
         \<and> (\<forall>chunk_buf. read_chunk (pfile pf) start len = Inr chunk_buf \<longrightarrow>
                0 \<le> sint start
                \<and> take (nat (sint len)) chunk_buf
                    = take (nat (sint len)) (drop (nat (sint start)) (pfile pf)))"
proof -
  from assms(6) have cs: "chunk_start (meta_data chunk) = start"
    by (simp add: chunk_start_def)
  have "scan_column ext fuel pf s c =
           (case read_chunk (pfile pf) start len of
              Inl e \<Rightarrow> Some (Inl e)
            | Inr chunk_buf \<Rightarrow>
                scan_pages ext (codec (meta_data chunk)) chunk_buf fuel 0 len
                  (if col_type (col c) = FIXED_LEN_BYTE_ARRAY
                   then ColumnScan_new\<lparr>type_len := type_length (schema_element (col c))\<rparr>
                   else ColumnScan_new) c)"
    unfolding scan_column_def Let_def assms(3) [symmetric] cs assms(7) [symmetric]
    using assms(1,2,4,5) by (simp split del: if_split)
  moreover have "0 \<le> sint start \<and> take (nat (sint len)) chunk_buf
                    = take (nat (sint len)) (drop (nat (sint start)) (pfile pf))"
    if "read_chunk (pfile pf) start len = Inr chunk_buf" for chunk_buf
    using read_chunk_bytes [OF that] by simp
  ultimately show ?thesis by blast
qed

subsection \<open>Scanning a row group\<close>

text \<open>
  The reading of the specification: the size of a slot of \<open>data\<close> is the native width of
  a numeric or Boolean value, the eight bytes of a \<open>uint64\<close> index for \<open>BYTE_ARRAY\<close>, and
  \<open>type_length\<close> bytes for \<open>FIXED_LEN_BYTE_ARRAY\<close>.
\<close>

definition spec_physical_slot_size :: "Type \<Rightarrow> int32_t \<Rightarrow> uint64_t" where
  "spec_physical_slot_size t tlen =
     (case t of BOOLEAN \<Rightarrow> 1 | INT32 \<Rightarrow> 4 | INT64 \<Rightarrow> 8 | INT96 \<Rightarrow> 12 | FLOAT \<Rightarrow> 4 | DOUBLE \<Rightarrow> 8
      | BYTE_ARRAY \<Rightarrow> 8 | FIXED_LEN_BYTE_ARRAY \<Rightarrow> scast tlen | _ \<Rightarrow> 0)"

text \<open>
  What \<open>initialize_column\<close> leaves: \<open>defined\<close> is \<open>num_rows\<close> zero bytes and \<open>data\<close> has
  \<open>num_rows\<close> slots, the product being computed in 64-bit unsigned arithmetic.
\<close>

lemma length_ByteBuffer_resize [simp]: "length (ByteBuffer_resize n cp buf) = n"
  by (simp add: ByteBuffer_resize_def)

lemma initialize_column_result:
  assumes "initialize_column pf c n = Inr c1"
  shows "defined c1 = replicate (unat n) 0
         \<and> length (data c1)
             = unat (spec_physical_slot_size (col_type (col c))
                       (type_length (schema_element (pf_columns pf ! result_col_id c))) * n)
         \<and> result_col_id c1 = result_col_id c \<and> col c1 = col c"
proof -
  from assms obtain d where d: "store_range (ByteBuffer_resize (unat n) False (defined c)) 0
                                   (replicate (unat n) 0) = Inr d"
    by (auto simp: initialize_column_def split: sum.splits)
  then have "d = replicate (unat n) 0"
    by (auto simp: store_range_def split: if_splits)
  with assms d show ?thesis
    by (auto simp: initialize_column_def spec_physical_slot_size_def Let_def
             split: Type.splits if_splits)
qed

lemma scan_cols_Inr_iff:
  "scan_cols ext fuel pf s n cs = Some (Inr cs') \<longleftrightarrow>
     list_all2 (\<lambda>c c'. \<exists>c1. initialize_column pf c n = Inr c1
                           \<and> scan_column ext fuel pf s c1 = Some (Inr c')) cs cs'"
proof (induction cs arbitrary: cs')
  case Nil
  show ?case by auto
next
  case (Cons c cs)
  show ?case
    by (cases cs') (auto simp: Cons.IH [symmetric] split: sum.splits option.splits)
qed

text \<open>
  C1.  \<open>scan\<close> returns \<open>false\<close>, with \<open>nrows = 0\<close> and nothing else changed, when
  \<open>row_group_idx\<close> is not below the number of row groups.  Otherwise it returns \<open>true\<close>
  exactly when every column is initialised and scanned without an error, and then
  \<open>nrows\<close> is the \<open>num_rows\<close> of the row group, \<open>row_group_idx\<close> is one more than before, and
  every column of the result is the scan of the column as \<open>initialize_column\<close> left it:
  \<open>defined\<close> zero-filled to \<open>num_rows\<close> bytes and \<open>data\<close> sized to \<open>num_rows\<close> slots.  (An
  error of a column ends the call as that error.)
\<close>

theorem scan_row_group:
  "scan ext fuel pf s r = Some (Inr (b, s', r')) \<longleftrightarrow>
     (if length (row_groups (file_meta_data pf)) \<le> unat (row_group_idx s)
      then \<not> b \<and> s' = s \<and> r' = r\<lparr>nrows := 0\<rparr>
      else b \<and> s' = s\<lparr>row_group_idx := row_group_idx s + 1\<rparr>
           \<and> nrows r' = num_rows (row_groups (file_meta_data pf) ! unat (row_group_idx s))
           \<and> list_all2
                (\<lambda>c c'. \<exists>c1.
                   initialize_column pf c
                       (num_rows (row_groups (file_meta_data pf) ! unat (row_group_idx s))) = Inr c1
                   \<and> defined c1
                       = replicate (unat (num_rows (row_groups (file_meta_data pf) ! unat (row_group_idx s)))) 0
                   \<and> length (data c1)
                       = unat (spec_physical_slot_size (col_type (col c))
                                 (type_length (schema_element (pf_columns pf ! result_col_id c)))
                               * num_rows (row_groups (file_meta_data pf) ! unat (row_group_idx s)))
                   \<and> scan_column ext fuel pf s c1 = Some (Inr c'))
                (cols r) (cols r'))"
proof -
  let ?n = "num_rows (row_groups (file_meta_data pf) ! unat (row_group_idx s))"
  have eq: "(\<lambda>c c'. \<exists>c1. initialize_column pf c ?n = Inr c1
                   \<and> defined c1 = replicate (unat ?n) 0
                   \<and> length (data c1)
                       = unat (spec_physical_slot_size (col_type (col c))
                                 (type_length (schema_element (pf_columns pf ! result_col_id c))) * ?n)
                   \<and> scan_column ext fuel pf s c1 = Some (Inr c'))
          = (\<lambda>c c'. \<exists>c1. initialize_column pf c ?n = Inr c1
                   \<and> scan_column ext fuel pf s c1 = Some (Inr c'))"
    by (intro ext) (auto dest: initialize_column_result)
  have r: "r' = r\<lparr>nrows := k, cols := cs\<rparr> \<longleftrightarrow> nrows r' = k \<and> cols r' = cs" for k cs
    by (cases r, cases r') auto
  show ?thesis
    unfolding eq
    by (auto simp: scan_def Let_def r scan_cols_Inr_iff [symmetric] split: sum.splits option.splits)
qed

subsection \<open>The example file\<close>

lemmas scan_eval_defs = scan_column_def chunk_start_def read_chunk_def scan_pages.simps scan_page_def
  example_ext_def example_file_def example_chunk_def scan_data_page_def
  RleBpDecoder_new_def shl_int_def sub_int_def GetBatch_def GetBatch_loop.simps NextCounts_def
  VarintDecode_def VarintDecode_loop.simps read_current_value.simps word_le_nat_alt word_less_nat_alt
  scan_data_page_plain_def count_nulls.simps fill_values_plain_def fill_values_plain_loop.simps

lemma example_initialize_column:
  "initialize_column example_file (example_column INT32 [] []) 2
     = Inr (example_column INT32 [0, 0, 0, 0, 0, 0, 0, 0] [0, 0])"
  "initialize_column example_file ((example_column INT32 [] [])\<lparr>result_col_id := Suc 0\<rparr>) 2
     = Inr ((example_column INT32 [0, 0, 0, 0, 0, 0, 0, 0] [0, 0])\<lparr>result_col_id := Suc 0\<rparr>)"
  by (simp_all add: initialize_column_def ByteBuffer_resize_def eval_defs)

lemma example_scan_column_0:
  "scan_column example_ext (Suc 0) example_file \<lparr>row_group_idx = 0\<rparr>
       (example_column INT32 [0, 0, 0, 0, 0, 0, 0, 0] [0, 0])
     = Some (Inr (example_column INT32 [0x11, 0x22, 0x33, 0x44, 0x55, 0x66, 0x77, 0x88] [1, 1]))"
  by (simp add: eval_defs scan_eval_defs)

lemma example_scan_column_1:
  "scan_column example_ext (Suc 0) example_file \<lparr>row_group_idx = 0\<rparr>
       ((example_column INT32 [0, 0, 0, 0, 0, 0, 0, 0] [0, 0])\<lparr>result_col_id := Suc 0\<rparr>)
     = Some (Inr ((example_column INT32 [0, 0, 0, 0, 0, 0, 0, 0] [0, 0])\<lparr>result_col_id := Suc 0\<rparr>))"
  by (simp add: eval_defs scan_eval_defs)

theorem scan_column_chunk_start_witness:
  "read_chunk (pfile example_file) 4 15
     = Inr ([0x15, 2, 0, 0, 0, 4, 1, 0x11, 0x22, 0x33, 0x44, 0x55, 0x66, 0x77, 0x88] @ replicate 128 0)
   \<and> scan_column example_ext 1 example_file \<lparr>row_group_idx = 0\<rparr>
         (example_column INT32 (replicate 8 0) [0, 0])
       = scan_pages example_ext UNCOMPRESSED
           ([0x15, 2, 0, 0, 0, 4, 1, 0x11, 0x22, 0x33, 0x44, 0x55, 0x66, 0x77, 0x88] @ replicate 128 0)
           1 0 15 ColumnScan_new (example_column INT32 (replicate 8 0) [0, 0])
   \<and> read_chunk (pfile example_file) 19 7 = Inr ([0x15, 2, 0, 0, 0, 4, 0] @ replicate 128 0)
   \<and> scan_column example_ext 1 example_file \<lparr>row_group_idx = 0\<rparr>
         ((example_column INT32 (replicate 8 0) [0, 0])\<lparr>result_col_id := 1\<rparr>)
       = scan_pages example_ext UNCOMPRESSED ([0x15, 2, 0, 0, 0, 4, 0] @ replicate 128 0)
           1 0 7 ColumnScan_new ((example_column INT32 (replicate 8 0) [0, 0])\<lparr>result_col_id := 1\<rparr>)"
proof -
  have r0: "read_chunk (pfile example_file) 4 15
     = Inr ([0x15, 2, 0, 0, 0, 4, 1, 0x11, 0x22, 0x33, 0x44, 0x55, 0x66, 0x77, 0x88] @ replicate 128 0)"
    and r1: "read_chunk (pfile example_file) 19 7 = Inr ([0x15, 2, 0, 0, 0, 4, 0] @ replicate 128 0)"
    by (simp_all add: read_chunk_def example_file_def)
  have "scan_column example_ext 1 example_file \<lparr>row_group_idx = 0\<rparr>
         (example_column INT32 (replicate 8 0) [0, 0])
       = scan_pages example_ext UNCOMPRESSED
           ([0x15, 2, 0, 0, 0, 4, 1, 0x11, 0x22, 0x33, 0x44, 0x55, 0x66, 0x77, 0x88] @ replicate 128 0)
           1 0 15 ColumnScan_new (example_column INT32 (replicate 8 0) [0, 0])"
    using scan_column_chunk_start [of "\<lparr>row_group_idx = 0\<rparr>" example_file
            "example_column INT32 (replicate 8 0) [0, 0]" "example_chunk 4 11 15" 4 15 example_ext 1]
    by (simp add: r0) (simp add: example_file_def example_chunk_def example_column_def)
  moreover have "scan_column example_ext 1 example_file \<lparr>row_group_idx = 0\<rparr>
         ((example_column INT32 (replicate 8 0) [0, 0])\<lparr>result_col_id := 1\<rparr>)
       = scan_pages example_ext UNCOMPRESSED ([0x15, 2, 0, 0, 0, 4, 0] @ replicate 128 0)
           1 0 7 ColumnScan_new ((example_column INT32 (replicate 8 0) [0, 0])\<lparr>result_col_id := 1\<rparr>)"
    using scan_column_chunk_start [of "\<lparr>row_group_idx = 0\<rparr>" example_file
            "(example_column INT32 (replicate 8 0) [0, 0])\<lparr>result_col_id := 1\<rparr>"
            "example_chunk 0 19 7" 19 7 example_ext 1]
    by (simp add: r1) (simp add: example_file_def example_chunk_def example_column_def)
  ultimately show ?thesis using r0 r1 by simp
qed

theorem scan_row_group_witness:
  "scan example_ext 1 example_file \<lparr>row_group_idx = 0\<rparr> example_result
     = Some (Inr (True, \<lparr>row_group_idx = 1\<rparr>,
                  \<lparr> cols = [example_column INT32 [0x11, 0x22, 0x33, 0x44, 0x55, 0x66, 0x77, 0x88] [1, 1],
                            (example_column INT32 (replicate 8 0) [0, 0])\<lparr>result_col_id := 1\<rparr>],
                     nrows = 2 \<rparr>))
   \<and> scan example_ext 1 example_file \<lparr>row_group_idx = 1\<rparr> example_result
     = Some (Inr (False, \<lparr>row_group_idx = 1\<rparr>, example_result\<lparr>nrows := 0\<rparr>))"
proof -
  have f: "row_groups (file_meta_data example_file)
             = [\<lparr> columns = [example_chunk 4 11 15, example_chunk 0 19 7], num_rows = 2 \<rparr>]"
    by (simp add: example_file_def)
  have s: "spec_physical_slot_size INT32 x = 4" for x
    by (simp add: spec_physical_slot_size_def)
  have c: "col_type (col (example_column INT32 a b)) = INT32"
          "col_type (col ((example_column INT32 a b)\<lparr>result_col_id := 1\<rparr>)) = INT32" for a b
    by (simp_all add: example_column_def)
  have d: "defined (example_column INT32 a b) = b" "data (example_column INT32 a b) = a" for a b
    by (simp_all add: example_column_def)
  have "scan example_ext 1 example_file \<lparr>row_group_idx = 0\<rparr> example_result
     = Some (Inr (True, \<lparr>row_group_idx = 1\<rparr>,
                  \<lparr> cols = [example_column INT32 [0x11, 0x22, 0x33, 0x44, 0x55, 0x66, 0x77, 0x88] [1, 1],
                            (example_column INT32 (replicate 8 0) [0, 0])\<lparr>result_col_id := 1\<rparr>],
                     nrows = 2 \<rparr>))"
    by (rule scan_row_group [THEN iffD2])
       (simp add: f s c d example_result_def example_initialize_column example_scan_column_0
          example_scan_column_1 replicate_numeral_unfold)
  moreover have "scan example_ext 1 example_file \<lparr>row_group_idx = 1\<rparr> example_result
     = Some (Inr (False, \<lparr>row_group_idx = 1\<rparr>, example_result\<lparr>nrows := 0\<rparr>))"
    by (rule scan_row_group [THEN iffD2]) (simp add: f)
  ultimately show ?thesis by simp
qed

end
